theory Spec2Isabelle
  imports Complex_Main
begin

section \<open>JavaScript values\<close>

text \<open>
  A JavaScript number is a finite double, an infinity or NaN. Only its truthiness matters
  to the page: zero (of either sign) and NaN are falsy, everything else is truthy.
\<close>

datatype jsnum = Num real | PosInfinity | NegInfinity | NaN

fun truthy :: "jsnum \<Rightarrow> bool" where
  "truthy (Num x) = (x \<noteq> 0)"
| "truthy PosInfinity = True"
| "truthy NegInfinity = True"
| "truthy NaN = False"

text \<open>
  Tag values are heterogeneous (\<open>Record<string, any>\<close>). An object is the list of its own
  enumerable entries in enumeration order; its keys are pairwise distinct.
\<close>

datatype jsval =
    JUndefined
  | JNull
  | JBool bool
  | JNumber jsnum
  | JString string
  | JArray "jsval list"
  | JObject "(string \<times> jsval) list"

type_synonym jsobject = "(string \<times> jsval) list"

definition wf_object :: "jsobject \<Rightarrow> bool" where
  "wf_object obj = distinct (map fst obj)"

text \<open>\<open>Object.entries(o)\<close>: the entries of the object, in enumeration order.\<close>

definition Object_entries :: "jsobject \<Rightarrow> (string \<times> jsval) list" where
  "Object_entries obj = obj"

text \<open>
  Assignment \<open>o[k] = v\<close>: an existing key keeps its position and takes the new value, a new
  key goes to the end.
\<close>

fun set_prop :: "jsobject \<Rightarrow> string \<Rightarrow> jsval \<Rightarrow> jsobject" where
  "set_prop [] k v = [(k, v)]"
| "set_prop ((k', v') # obj) k v =
     (if k' = k then (k', v) # obj else (k', v') # set_prop obj k v)"

text \<open>\<open>Object.fromEntries(es)\<close>: assigns the entries one after the other to a new object.\<close>

definition Object_fromEntries :: "(string \<times> jsval) list \<Rightarrow> jsobject" where
  "Object_fromEntries es = foldl (\<lambda>obj (k, v). set_prop obj k v) [] es"

section \<open>The metadata filter (page.tsx, lines 37-41)\<close>

text \<open>
  \<open>allMetaData\<close> is what \<open>exifr.parse\<close> resolved to: an object, or \<open>undefined\<close> (here
  \<open>None\<close>) for a file without any of the requested segments. \<open>allMetaData || {}\<close> replaces
  the latter by the empty object.
\<close>

definition keep_key :: "string \<times> jsval \<Rightarrow> bool" where
  "keep_key = (\<lambda>(key, _). key \<noteq> ''MakerNote'' \<and> key \<noteq> ''thumbnail'')"

definition filtered :: "jsobject option \<Rightarrow> jsobject" where
  "filtered allMetaData =
     Object_fromEntries
       (filter keep_key
          (Object_entries (case allMetaData of None \<Rightarrow> [] | Some obj \<Rightarrow> obj)))"

section \<open>The selected file and the external parser\<close>

text \<open>
  The page never looks into the file: it passes it to the parser library. A file is
  therefore described by what the two calls answer for it: what \<open>exifr.parse\<close> (with the
  TIFF, GPS, XMP and JFIF groups enabled) resolves to or throws, and what \<open>exifr.gps\<close>
  resolves to or throws. \<open>exifr.gps\<close> resolves to \<open>undefined\<close> or to an object whose
  \<open>latitude\<close> and \<open>longitude\<close> may each be missing.
\<close>

datatype error = Error string

datatype gps_output = GpsOutput (out_latitude: "jsnum option") (out_longitude: "jsnum option")

record js_file =
  exifr_parse :: "error + jsobject option"
  exifr_gps :: "error + gps_output option"


text \<open>
  \<open>URL.createObjectURL\<close> returns a new URL at every call; a URL is identified by the
  number of URLs handed out before it. The calls made to the parser library are recorded
  in the order they are made.
\<close>

datatype object_url = ObjectURL nat

datatype parser_call = Call_parse | Call_gps

section \<open>The map library's objects\<close>

text \<open>
  The constructor arguments of the OpenLayers objects the effect builds. \<open>'p\<close> is the type
  of projected coordinates; the projection \<open>fromLonLat\<close> is a parameter of the model.
\<close>

datatype element = Div nat

record ol_icon =
  anchor :: "real list"
  src :: string

record ol_style =
  style_image :: ol_icon

datatype 'p geometry = Point 'p

record 'p ol_feature =
  geometry :: "'p geometry"
  style :: "ol_style option"

record 'p ol_vector_source =
  features :: "'p ol_feature list"

datatype tile_source = OSM

datatype 'p layer = TileLayer tile_source | VectorLayer "'p ol_vector_source"

record 'p ol_view =
  center :: 'p
  zoom :: nat

record 'p ol_map =
  target :: "element option"
  layers :: "'p layer list"
  view :: "'p ol_view"

section \<open>The state of the page (page.tsx, lines 17-21)\<close>

text \<open>
  The object held by \<open>gpsData\<close>. Every \<open>setGpsData({...})\<close> allocates a new object; \<open>ref\<close>
  is its identity.
\<close>

record gps =
  ref :: nat
  latitude :: jsnum
  longitude :: jsnum

text \<open>
  \<open>metadata\<close>, \<open>imageSrc\<close> and \<open>gpsData\<close> are the three \<open>useState\<close> cells, \<open>mapRef\<close> and
  \<open>mapInstance\<close> the \<open>.current\<close> of the two \<open>useRef\<close> cells. \<open>maps\<close> is the store of all
  \<open>Map\<close> objects constructed so far, in order of construction; a reference to a map is its
  index. The remaining fields are what the React runtime keeps for the component: whether
  the last run of the effect returned a cleanup function, the dependency \<open>[gpsData]\<close> of
  that run, whether the component is mounted, the handler invocations suspended at their
  \<open>await\<close>, and the allocation counter for object identities. \<open>urls\<close> is the number of
  object URLs the browser has handed out, \<open>calls\<close> the calls made to the parser library
  so far.
\<close>

record 'p page =
  metadata :: jsobject
  imageSrc :: "object_url option"
  gpsData :: "gps option"
  mapRef :: "element option"
  mapInstance :: "nat option"
  maps :: "'p ol_map list"
  cleanup :: bool
  deps :: "gps option"
  mounted :: bool
  pending :: "js_file list"
  fresh :: nat
  urls :: nat
  calls :: "parser_call list"

text \<open>The state after the first render: nothing selected, the effect has run and done nothing.\<close>

definition initial :: "'p page" where
  "initial = \<lparr>metadata = [], imageSrc = None, gpsData = None, mapRef = None,
              mapInstance = None, maps = [], cleanup = False, deps = None,
              mounted = True, pending = [], fresh = 0, urls = 0, calls = []\<rparr>"

section \<open>handleFileChange (page.tsx, lines 23-59)\<close>

text \<open>
  Lines 27-28: \<open>URL.createObjectURL(file)\<close> hands out a new URL, which is stored as the
  preview before anything is parsed.
\<close>

definition intake :: "js_file \<Rightarrow> 'p page \<Rightarrow> 'p page" where
  "intake file s = s\<lparr>imageSrc := Some (ObjectURL (urls s)), urls := Suc (urls s)\<rparr>"

text \<open>
  Lines 46-53: \<open>gpsMetaData && gpsMetaData.latitude && gpsMetaData.longitude\<close> selects
  between a new object with the two reported numbers and \<open>null\<close>. The argument \<open>r\<close> is the
  identity of the new object.
\<close>

definition gps_state :: "gps_output option \<Rightarrow> nat \<Rightarrow> gps option" where
  "gps_state gpsMetaData r =
     (case gpsMetaData of
        None \<Rightarrow> None
      | Some g \<Rightarrow>
          (case out_latitude g of
             None \<Rightarrow> None
           | Some la \<Rightarrow>
               if truthy la then
                 (case out_longitude g of
                    None \<Rightarrow> None
                  | Some lo \<Rightarrow>
                      if truthy lo then Some \<lparr>ref = r, latitude = la, longitude = lo\<rparr>
                      else None)
               else None))"

text \<open>
  Lines 31-53, the guarded block: \<open>exifr.parse\<close> is called (line 31) and then, if it
  returned, \<open>exifr.gps\<close> (line 35); both are awaited before any state cell is written. A
  throw of either ends the block with the error and the state at that point.
\<close>

definition try_block :: "js_file \<Rightarrow> 'p page \<Rightarrow> (error \<times> 'p page) + 'p page" where
  "try_block file s =
     (let s1 = s\<lparr>calls := calls s @ [Call_parse]\<rparr> in
      case exifr_parse file of
        Inl err \<Rightarrow> Inl (err, s1)
      | Inr allMetaData \<Rightarrow>
          (let s2 = s1\<lparr>calls := calls s1 @ [Call_gps]\<rparr> in
           case exifr_gps file of
             Inl err \<Rightarrow> Inl (err, s2)
           | Inr gpsMetaData \<Rightarrow>
               Inr (s2\<lparr>metadata := filtered allMetaData,
                        gpsData := gps_state gpsMetaData (fresh s2),
                        fresh := (if gps_state gpsMetaData (fresh s2) = None then fresh s2
                                  else Suc (fresh s2))\<rparr>)))"

text \<open>
  Lines 54-58, the handler of the guarded block: two writes, and no call of the parser.
\<close>

definition catch_block :: "'p page \<Rightarrow> 'p page" where
  "catch_block s =
     s\<lparr>metadata := [(''error'', JString ''Failed to read EXIF metadata'')], gpsData := None\<rparr>"

text \<open>
  Lines 30-58, the handler from its first \<open>await\<close> on. The result is \<open>Inl\<close> when an error
  leaves the handler and \<open>Inr\<close> of the new state otherwise.
\<close>

definition extraction :: "js_file \<Rightarrow> 'p page \<Rightarrow> error + 'p page" where
  "extraction file s =
     (case try_block file s of
        Inl (err, s') \<Rightarrow> Inr (catch_block s')
      | Inr s' \<Rightarrow> Inr s')"

text \<open>
  The whole handler, run on a change event with nothing else happening in between.
  \<open>e.target.files?.[0]\<close> is the file of the event, if it carries one.
\<close>

definition handleFileChange :: "js_file option \<Rightarrow> 'p page \<Rightarrow> error + 'p page" where
  "handleFileChange e s =
     (case e of
        None \<Rightarrow> Inr s
      | Some file \<Rightarrow> extraction file (intake file s))"

section \<open>The effect (page.tsx, lines 62-108)\<close>

text \<open>Lines 65-98, the body of the effect when its guard holds: the map it constructs.\<close>

definition new_Map :: "(jsnum list \<Rightarrow> 'p) \<Rightarrow> gps \<Rightarrow> element \<Rightarrow> 'p ol_map" where
  "new_Map fromLonLat g el =
     (let marker = \<lparr>geometry = Point (fromLonLat [longitude g, latitude g]), style = None\<rparr>;
          markerStyle = \<lparr>style_image = \<lparr>anchor = [0.5, 1], src = ''/marker-icon.png''\<rparr>\<rparr>;
          marker = marker\<lparr>style := Some markerStyle\<rparr>;
          vectorSource = \<lparr>features = [marker]\<rparr>;
          vectorLayer = VectorLayer vectorSource
      in \<lparr>target = Some el,
          layers = [TileLayer OSM, vectorLayer],
          view = \<lparr>center = fromLonLat [longitude g, latitude g], zoom = 13\<rparr>\<rparr>)"

text \<open>
  Lines 63-107. Under the guard \<open>gpsData && mapRef.current\<close> the new map is stored in
  \<open>mapInstance.current\<close> and a cleanup function is returned; otherwise nothing is done
  and nothing is returned.
\<close>

definition effect :: "(jsnum list \<Rightarrow> 'p) \<Rightarrow> 'p page \<Rightarrow> 'p page" where
  "effect fromLonLat s =
     (case gpsData s of
        None \<Rightarrow> s\<lparr>cleanup := False\<rparr>
      | Some g \<Rightarrow>
          (case mapRef s of
             None \<Rightarrow> s\<lparr>cleanup := False\<rparr>
           | Some el \<Rightarrow>
               s\<lparr>maps := maps s @ [new_Map fromLonLat g el],
                 mapInstance := Some (length (maps s)),
                 cleanup := True\<rparr>))"

text \<open>Line 103: \<open>setTarget(undefined)\<close> on the map with reference \<open>i\<close>.\<close>

definition setTarget_undefined :: "nat \<Rightarrow> 'p page \<Rightarrow> 'p page" where
  "setTarget_undefined i s = s\<lparr>maps := (maps s)[i := (maps s ! i)\<lparr>target := None\<rparr>]\<rparr>"

text \<open>
  Lines 101-106, the cleanup function: the states it passes through, one per assignment
  (none when \<open>mapInstance.current\<close> is \<open>null\<close>).
\<close>

definition cleanup_trace :: "'p page \<Rightarrow> 'p page list" where
  "cleanup_trace s =
     (case mapInstance s of
        None \<Rightarrow> []
      | Some i \<Rightarrow> [setTarget_undefined i s, (setTarget_undefined i s)\<lparr>mapInstance := None\<rparr>])"

section \<open>The React runtime around the component\<close>

text \<open>
  Lines 132-137: the \<open>div\<close> carrying \<open>ref={mapRef}\<close> is rendered exactly when \<open>gpsData\<close>
  is not \<open>null\<close>. Committing a render attaches a newly created element to the ref, keeps
  the element of the previous render, or detaches it.
\<close>

definition commit_ref :: "'p page \<Rightarrow> 'p page" where
  "commit_ref s =
     (case gpsData s of
        None \<Rightarrow> s\<lparr>mapRef := None\<rparr>
      | Some g \<Rightarrow>
          (case mapRef s of
             Some el \<Rightarrow> s
           | None \<Rightarrow> s\<lparr>mapRef := Some (Div (fresh s)), fresh := Suc (fresh s)\<rparr>))"

text \<open>
  React runs the cleanup function it holds, if any, and forgets it. The list is the states
  passed through.
\<close>

definition run_cleanup :: "'p page \<Rightarrow> 'p page list" where
  "run_cleanup s = (if cleanup s then cleanup_trace s @ [(last (s # cleanup_trace s))\<lparr>cleanup := False\<rparr>] else [])"

text \<open>
  A render after a state update: the ref is committed; then, when the dependency
  \<open>[gpsData]\<close> is not the object of the last run (\<open>Object.is\<close>; a record carries its
  identity, so equal records are the same object), the cleanup of the last run and then
  the effect are run. The list is the states passed through, in order.
\<close>

definition render_trace :: "(jsnum list \<Rightarrow> 'p) \<Rightarrow> 'p page \<Rightarrow> 'p page list" where
  "render_trace fromLonLat s =
     (let s1 = commit_ref s in
      if deps s1 = gpsData s1 then [s1]
      else
        (let cs = run_cleanup s1;
             s2 = last (s1 # cs);
             s3 = effect fromLonLat s2
         in s1 # cs @ [s3\<lparr>deps := gpsData s3\<rparr>]))"

text \<open>Removal of the component: the ref is detached and the cleanup it holds is run.\<close>

definition unmount_trace :: "'p page \<Rightarrow> 'p page list" where
  "unmount_trace s =
     (let s1 = s\<lparr>mapRef := None\<rparr>;
          cs = run_cleanup s1
      in s1 # cs @ [(last (s1 # cs))\<lparr>mounted := False\<rparr>])"

text \<open>
  What can happen to the page: a change event of the file input (with or without a
  file), the completion of the awaited calls of the \<open>k\<close>-th suspended handler invocation,
  and the removal of the component. A handler invocation that completes after the removal
  writes to state cells that no longer exist, which React ignores.
\<close>

datatype event = Select "js_file option" | Resolve nat | Unmount

definition step_trace :: "(jsnum list \<Rightarrow> 'p) \<Rightarrow> event \<Rightarrow> 'p page \<Rightarrow> 'p page list" where
  "step_trace fromLonLat ev s =
     (case ev of
        Select e \<Rightarrow>
          (if mounted s then
             (case e of
                None \<Rightarrow> []
              | Some file \<Rightarrow>
                  (let s1 = (intake file s)\<lparr>pending := pending s @ [file]\<rparr>
                   in s1 # render_trace fromLonLat s1))
           else [])
      | Resolve k \<Rightarrow>
          (if k < length (pending s) then
             (let file = pending s ! k;
                  s0 = s\<lparr>pending := take k (pending s) @ drop (Suc k) (pending s)\<rparr>
              in if mounted s then
                   (case extraction file s0 of
                      Inl err \<Rightarrow> [s0]
                    | Inr s1 \<Rightarrow> s1 # render_trace fromLonLat s1)
                 else [s0])
           else [])
      | Unmount \<Rightarrow> (if mounted s then unmount_trace s else []))"

definition step :: "(jsnum list \<Rightarrow> 'p) \<Rightarrow> event \<Rightarrow> 'p page \<Rightarrow> 'p page" where
  "step fromLonLat ev s = last (s # step_trace fromLonLat ev s)"

definition run :: "(jsnum list \<Rightarrow> 'p) \<Rightarrow> event list \<Rightarrow> 'p page \<Rightarrow> 'p page" where
  "run fromLonLat evs s = foldl (\<lambda>s ev. step fromLonLat ev s) s evs"

text \<open>The live maps: those bound to a display target.\<close>

definition live_maps :: "'p page \<Rightarrow> 'p ol_map list" where
  "live_maps s = filter (\<lambda>m. target m \<noteq> None) (maps s)"

section \<open>Outcomes of a selection\<close>

text \<open>A selection fails when either of the two awaited calls throws.\<close>

definition parse_fails :: "js_file \<Rightarrow> bool" where
  "parse_fails file =
     (case exifr_parse file of
        Inl err \<Rightarrow> True
      | Inr allMetaData \<Rightarrow> (case exifr_gps file of Inl err \<Rightarrow> True | Inr gpsMetaData \<Rightarrow> False))"

text \<open>
  The parser calls of one run of the guarded block: \<open>exifr.parse\<close>, and \<open>exifr.gps\<close> if
  \<open>exifr.parse\<close> returned.
\<close>

definition calls_of :: "js_file \<Rightarrow> parser_call list" where
  "calls_of fl = (case exifr_parse fl of Inl err \<Rightarrow> [Call_parse] | Inr allMetaData \<Rightarrow> [Call_parse, Call_gps])"

text \<open>A selection yields a coordinate when both calls return and the guard of line 46 holds.\<close>

definition yields_gps :: "js_file \<Rightarrow> bool" where
  "yields_gps fl =
     (case exifr_parse fl of
        Inl err \<Rightarrow> False
      | Inr allMetaData \<Rightarrow>
          (case exifr_gps fl of
             Inl err \<Rightarrow> False
           | Inr gpsMetaData \<Rightarrow> gps_state gpsMetaData 0 \<noteq> None))"

text \<open>
  The events of a run in which files are only selected, each yielding a coordinate, and
  their handlers complete in any order.
\<close>

definition selection_event :: "event \<Rightarrow> bool" where
  "selection_event ev =
     (case ev of
        Select e \<Rightarrow> (case e of None \<Rightarrow> False | Some fl \<Rightarrow> yields_gps fl)
      | Resolve k \<Rightarrow> True
      | Unmount \<Rightarrow> False)"

definition is_selection :: "event \<Rightarrow> bool" where
  "is_selection ev = (case ev of Select e \<Rightarrow> e \<noteq> None | Resolve k \<Rightarrow> False | Unmount \<Rightarrow> False)"

section \<open>Invariants of the page\<close>

text \<open>
  Two conditions on the store: a map is bound to a target only if \<open>mapInstance.current\<close>
  refers to it (so at most one is); and, stronger, no map is bound.
\<close>

definition bound_only_current :: "'p page \<Rightarrow> bool" where
  "bound_only_current s =
     (\<forall>j<length (maps s). target (maps s ! j) \<noteq> None \<longrightarrow> mapInstance s = Some j)"

definition all_unbound :: "'p page \<Rightarrow> bool" where
  "all_unbound s = (\<forall>m \<in> set (maps s). target m = None)"

text \<open>
  The two states of the location renderer, as they show in the store: the map with
  reference \<open>i\<close> is the one bound map and its cleanup is held; or no map is bound and no
  cleanup is held.
\<close>

definition active :: "'p page \<Rightarrow> nat \<Rightarrow> bool" where
  "active s i = (mapInstance s = Some i \<and> i < length (maps s) \<and> target (maps s ! i) \<noteq> None
       \<and> bound_only_current s \<and> cleanup s)"

definition inactive :: "'p page \<Rightarrow> bool" where
  "inactive s = (mapInstance s = None \<and> all_unbound s \<and> \<not> cleanup s)"

text \<open>
  Between two events: object identities are below the allocation counter, and the
  renderer is active exactly when the last run of the effect saw a coordinate, with the
  map that run built for the element the ref holds. After removal nothing is bound.
\<close>

definition page_inv :: "(jsnum list \<Rightarrow> 'p) \<Rightarrow> 'p page \<Rightarrow> bool" where
  "page_inv f s =
     ((\<forall>g. gpsData s = Some g \<longrightarrow> ref g < fresh s)
    \<and> (\<forall>g. deps s = Some g \<longrightarrow> ref g < fresh s)
    \<and> (if mounted s then
          (case deps s of
             None \<Rightarrow> inactive s \<and> mapRef s = None
           | Some d \<Rightarrow>
               (\<exists>i el. active s i \<and> mapRef s = Some el \<and> maps s ! i = new_Map f d el))
        else inactive s))"

text \<open>Between two events of a mounted page the effect has run for the current \<open>gpsData\<close>.\<close>

definition reach_inv :: "(jsnum list \<Rightarrow> 'p) \<Rightarrow> 'p page \<Rightarrow> bool" where
  "reach_inv f s = (page_inv f s \<and> (mounted s \<longrightarrow> deps s = gpsData s))"

text \<open>
  The maps of \<open>s\<close> are still there in \<open>t\<close> with the layers and the view they had, and
  the map with reference \<open>i\<close> is unbound and no longer referred to.
\<close>

definition same_maps_content :: "'p page \<Rightarrow> 'p page \<Rightarrow> bool" where
  "same_maps_content s t =
     (length (maps s) \<le> length (maps t)
    \<and> (\<forall>j<length (maps s). layers (maps t ! j) = layers (maps s ! j)
                            \<and> view (maps t ! j) = view (maps s ! j)))"

definition torn_down :: "nat \<Rightarrow> 'p page \<Rightarrow> bool" where
  "torn_down i t = (mapInstance t = None \<and> target (maps t ! i) = None \<and> live_maps t = [])"

section \<open>Example inputs\<close>

text \<open>
  Selections with the answers of the browser and the parser for them (two photos with a
  position, a file the parser rejects, a photo taken on the equator and a file without
  metadata), the state of a new page after the rejected file has been selected once, a
  projection that returns its argument, and two runs of the page.
\<close>

definition photo_sf :: js_file where
  "photo_sf = \<lparr>exifr_parse = Inr (Some [(''Make'', JString ''Canon''), (''MakerNote'', JArray []),
                               (''latitude'', JNumber (Num 37.7749)),
                               (''longitude'', JNumber (Num (-122.4194))),
                               (''thumbnail'', JArray [])]),
      exifr_gps = Inr (Some (GpsOutput (Some (Num 37.7749)) (Some (Num (-122.4194)))))\<rparr>"

definition photo_paris :: js_file where
  "photo_paris = \<lparr>exifr_parse = Inr (Some [(''latitude'', JNumber (Num 48.8566)),
                               (''longitude'', JNumber (Num 2.3522))]),
      exifr_gps = Inr (Some (GpsOutput (Some (Num 48.8566)) (Some (Num 2.3522))))\<rparr>"

definition corrupt_file :: js_file where
  "corrupt_file = \<lparr>exifr_parse = Inl (Error ''Unknown file format''),
      exifr_gps = Inl (Error ''Unknown file format'')\<rparr>"

definition null_island :: js_file where
  "null_island = \<lparr>exifr_parse = Inr (Some [(''latitude'', JNumber (Num 0)),
                               (''longitude'', JNumber (Num 2.3522)),
                               (''GPSLongitude'', JArray [JNumber (Num 2), JNumber (Num 21)])]),
      exifr_gps = Inr (Some (GpsOutput (Some (Num 0)) (Some (Num 2.3522))))\<rparr>"


definition failed_once :: "unit page" where
  "failed_once = initial\<lparr>imageSrc := Some (ObjectURL 0), urls := 1, calls := [Call_parse],
      metadata := [(''error'', JString ''Failed to read EXIF metadata'')]\<rparr>"

definition plain :: "jsnum list \<Rightarrow> jsnum list" where
  "plain lonlat = lonlat"

definition two_selections :: "event list" where
  "two_selections = [Select (Some photo_sf), Select (Some photo_paris), Resolve 1, Resolve 0]"

definition shown_then_reselected :: "event list" where
  "shown_then_reselected = [Select (Some photo_sf), Resolve 0, Select (Some photo_paris)]"

section \<open>Properties of the metadata filter\<close>

lemma set_prop_fresh:
  "k \<notin> fst ` set obj \<Longrightarrow> set_prop obj k v = obj @ [(k, v)]"
  by (induction obj) auto

lemma keys_set_prop: "fst ` set (set_prop obj k v) = insert k (fst ` set obj)"
proof (induction obj)
  case Nil
  show ?case by simp
next
  case (Cons e obj)
  obtain k' v' where e: "e = (k', v')" by (cases e)
  show ?case
  proof (cases "k' = k")
    case True
    then show ?thesis using e by auto
  next
    case False
    then show ?thesis using e Cons.IH by auto
  qed
qed

lemma distinct_set_prop:
  "distinct (map fst obj) \<Longrightarrow> distinct (map fst (set_prop obj k v))"
proof (induction obj)
  case Nil
  show ?case by simp
next
  case (Cons e obj)
  obtain k' v' where e: "e = (k', v')" by (cases e)
  have "k' \<notin> fst ` set obj" using Cons.prems e by simp
  moreover have "distinct (map fst (set_prop obj k v))" using Cons by simp
  ultimately show ?case using Cons.prems e by (auto simp: keys_set_prop)
qed

lemma foldl_set_prop_distinct:
  "distinct (map fst (acc @ es)) \<Longrightarrow>
   foldl (\<lambda>obj (k, v). set_prop obj k v) acc es = acc @ es"
proof (induction es arbitrary: acc)
  case Nil
  show ?case by simp
next
  case (Cons e es)
  obtain k v where e: "e = (k, v)" by (cases e)
  have fresh: "k \<notin> fst ` set acc" using Cons.prems e by auto
  have "distinct (map fst ((acc @ [(k, v)]) @ es))" using Cons.prems e by simp
  then have "foldl (\<lambda>obj (k, v). set_prop obj k v) (acc @ [(k, v)]) es = (acc @ [(k, v)]) @ es"
    by (rule Cons.IH)
  then show ?case using e fresh by (simp add: set_prop_fresh)
qed

lemma fromEntries_distinct:
  "distinct (map fst es) \<Longrightarrow> Object_fromEntries es = es"
  using foldl_set_prop_distinct [of "[]" es] by (simp add: Object_fromEntries_def)

lemma foldl_set_prop_keys:
  "fst ` set (foldl (\<lambda>obj (k, v). set_prop obj k v) acc es) = fst ` set acc \<union> fst ` set es"
proof (induction es arbitrary: acc)
  case Nil
  show ?case by simp
next
  case (Cons e es)
  obtain k v where e: "e = (k, v)" by (cases e)
  show ?case using Cons.IH [of "set_prop acc k v"] e by (auto simp: keys_set_prop)
qed

lemma foldl_set_prop_wf:
  "distinct (map fst acc) \<Longrightarrow>
   distinct (map fst (foldl (\<lambda>obj (k, v). set_prop obj k v) acc es))"
proof (induction es arbitrary: acc)
  case Nil
  then show ?case by simp
next
  case (Cons e es)
  obtain k v where e: "e = (k, v)" by (cases e)
  show ?case using Cons.IH [of "set_prop acc k v"] Cons.prems e
    by (simp add: distinct_set_prop)
qed

lemma fromEntries_keys: "fst ` set (Object_fromEntries es) = fst ` set es"
  using foldl_set_prop_keys [of "[]" es] by (simp add: Object_fromEntries_def)

lemma fromEntries_wf: "wf_object (Object_fromEntries es)"
  using foldl_set_prop_wf [of "[]" es] by (simp add: Object_fromEntries_def wf_object_def)

lemma filtered_wf: "wf_object (filtered x)"
  by (simp add: filtered_def fromEntries_wf)

lemma filtered_keys_kept: "e \<in> set (filtered x) \<Longrightarrow> keep_key e"
proof -
  assume e: "e \<in> set (filtered x)"
  let ?es = "filter keep_key (Object_entries (case x of None \<Rightarrow> [] | Some obj \<Rightarrow> obj))"
  have "fst e \<in> fst ` set ?es"
    using e fromEntries_keys [of ?es] by (auto simp: filtered_def)
  then obtain e' where e': "e' \<in> set ?es" "fst e' = fst e" by auto
  then have "keep_key e'" by simp
  then show "keep_key e" using e'(2) by (cases e; cases e') (simp add: keep_key_def)
qed

lemma filtered_Some_wf:
  "wf_object m \<Longrightarrow> filtered (Some m) = filter keep_key m"
  by (simp add: filtered_def Object_entries_def wf_object_def fromEntries_distinct distinct_map_filter)

lemma map_of_filter_keep:
  "map_of (filter keep_key m) k =
     (if k = ''MakerNote'' \<or> k = ''thumbnail'' then None else map_of m k)"
  by (induction m) (auto simp: keep_key_def)

text \<open>
  C2. The metadata filter is a total function of the parsed tag object alone. On every
  object it removes exactly the entries keyed \<open>MakerNote\<close> and \<open>thumbnail\<close>: the result is
  the input's entry list without these two, in the same order, so every other key is
  present with the value it had (whatever its shape), and an absent parser result gives
  the empty object.
\<close>

theorem filtered_drops_exactly_two_keys:
  "wf_object m \<Longrightarrow>
     filtered (Some m) = filter (\<lambda>(key, v). key \<noteq> ''MakerNote'' \<and> key \<noteq> ''thumbnail'') m
   \<and> (\<forall>k. map_of (filtered (Some m)) k =
            (if k = ''MakerNote'' \<or> k = ''thumbnail'' then None else map_of m k))
   \<and> fst ` set (filtered (Some m)) = fst ` set m - {''MakerNote'', ''thumbnail''}
   \<and> wf_object (filtered (Some m))"
proof -
  assume wf: "wf_object m"
  have eq: "filtered (Some m) = filter keep_key m" using wf by (rule filtered_Some_wf)
  have keys: "fst ` set (filter keep_key m) = fst ` set m - {''MakerNote'', ''thumbnail''}"
    by (auto simp: keep_key_def image_iff)
  show ?thesis
    using eq keys filtered_wf [of "Some m"] map_of_filter_keep [of m]
    by (simp add: keep_key_def)
qed

theorem filtered_drops_exactly_two_keys_witness:
  "wf_object [(''Make'', JString ''Canon''), (''MakerNote'', JArray [JNumber (Num 1)]),
              (''GPS'', JObject [(''latitude'', JNumber (Num 37.7749))]),
              (''thumbnail'', JArray []), (''ISO'', JNumber (Num 100))]
   \<and> filtered (Some [(''Make'', JString ''Canon''), (''MakerNote'', JArray [JNumber (Num 1)]),
              (''GPS'', JObject [(''latitude'', JNumber (Num 37.7749))]),
              (''thumbnail'', JArray []), (''ISO'', JNumber (Num 100))])
     = [(''Make'', JString ''Canon''),
        (''GPS'', JObject [(''latitude'', JNumber (Num 37.7749))]),
        (''ISO'', JNumber (Num 100))]"
proof -
  let ?m = "[(''Make'', JString ''Canon''), (''MakerNote'', JArray [JNumber (Num 1)]),
              (''GPS'', JObject [(''latitude'', JNumber (Num 37.7749))]),
              (''thumbnail'', JArray []), (''ISO'', JNumber (Num 100))]"
  have wf: "wf_object ?m" by (simp add: wf_object_def)
  show ?thesis using wf filtered_drops_exactly_two_keys [OF wf] by simp
qed

text \<open>
  C10. The metadata filter is idempotent: applied to its own output it returns that output,
  for every parser result (an object or none).
\<close>

theorem filtered_idempotent: "filtered (Some (filtered x)) = filtered x"
proof -
  have all: "\<forall>e \<in> set (filtered x). keep_key e"
    using filtered_keys_kept by blast
  have "filter keep_key (filtered x) = filtered x"
    using all by (simp add: filter_id_conv)
  moreover have "wf_object (filtered x)" by (rule filtered_wf)
  ultimately show ?thesis using filtered_Some_wf [of "filtered x"] by simp
qed

theorem filtered_idempotent_witness:
  "filtered (Some (filtered (Some [(''Make'', JString ''Canon''), (''thumbnail'', JArray [])])))
     = [(''Make'', JString ''Canon'')]"
  using filtered_idempotent [of "Some [(''Make'', JString ''Canon''), (''thumbnail'', JArray [])]"]
  by (simp add: filtered_def Object_entries_def Object_fromEntries_def keep_key_def)

section \<open>Properties of the handler\<close>

lemma try_block_fails:
  "parse_fails f \<Longrightarrow> \<exists>err. try_block f s = Inl (err, s\<lparr>calls := calls s @ calls_of f\<rparr>)"
  by (auto simp: parse_fails_def try_block_def calls_of_def Let_def split: sum.splits)

lemma extraction_fails:
  "parse_fails f \<Longrightarrow> extraction f s = Inr (catch_block (s\<lparr>calls := calls s @ calls_of f\<rparr>))"
  using try_block_fails [of f s] by (auto simp: extraction_def)

lemma extraction_ok:
  "exifr_parse f = Inr m \<Longrightarrow> exifr_gps f = Inr g \<Longrightarrow>
   extraction f s = Inr (s\<lparr>calls := calls s @ [Call_parse, Call_gps],
       metadata := filtered m, gpsData := gps_state g (fresh s),
       fresh := (if gps_state g (fresh s) = None then fresh s else Suc (fresh s))\<rparr>)"
  by (simp add: extraction_def try_block_def Let_def)

lemma parse_calls_of: "length (filter (\<lambda>c. c = Call_parse) (calls_of f)) = 1"
  by (simp add: calls_of_def split: sum.splits)

lemma gps_calls_of: "length (filter (\<lambda>c. c = Call_gps) (calls_of f)) \<le> 1"
  by (simp add: calls_of_def split: sum.splits)

text \<open>
  C7. A change event that carries no file leaves the whole state as it is, the preview
  reference, the metadata and the coordinate included: the handler returns at once, and
  on the page no state passes and nothing is rendered.
\<close>

theorem no_file_noop:
  "handleFileChange None s = Inr s
   \<and> step_trace fromLonLat (Select None) s = []
   \<and> step fromLonLat (Select None) s = s"
  by (simp add: handleFileChange_def step_trace_def step_def)

theorem no_file_noop_witness:
  "handleFileChange None (run plain shown_then_reselected initial)
     = Inr (run plain shown_then_reselected initial)
   \<and> step plain (Select None) (run plain shown_then_reselected initial)
     = run plain shown_then_reselected initial"
  using no_file_noop [of "run plain shown_then_reselected initial" plain] by simp

text \<open>
  C8. When either awaited call throws for the selected file, the handler ends in the state
  that the intake left, with the calls made recorded and only the metadata and the
  coordinate overwritten: the preview reference is the object URL handed out for this
  selection. The part of the handler after the first \<open>await\<close> never touches the preview
  reference.
\<close>

theorem failure_keeps_preview:
  "parse_fails f \<Longrightarrow>
     handleFileChange (Some f) s =
       Inr ((intake f s)\<lparr>calls := calls s @ calls_of f,
                         metadata := [(''error'', JString ''Failed to read EXIF metadata'')],
                         gpsData := None\<rparr>)
   \<and> (\<forall>s'. handleFileChange (Some f) s = Inr s' \<longrightarrow> imageSrc s' = Some (ObjectURL (urls s)))
   \<and> (\<forall>t. \<exists>t'. extraction f t = Inr t' \<and> imageSrc t' = imageSrc t)"
  by (simp add: handleFileChange_def extraction_fails catch_block_def intake_def)

theorem failure_keeps_preview_witness:
  "parse_fails corrupt_file
   \<and> handleFileChange (Some corrupt_file) (initial :: unit page) =
       Inr (initial\<lparr>imageSrc := Some (ObjectURL 0), urls := 1, calls := [Call_parse],
                    metadata := [(''error'', JString ''Failed to read EXIF metadata'')]\<rparr>)"
proof -
  have h: "parse_fails corrupt_file" by (simp add: parse_fails_def corrupt_file_def)
  have "handleFileChange (Some corrupt_file) (initial :: unit page) =
       Inr ((intake corrupt_file initial)
              \<lparr>calls := calls (initial :: unit page) @ calls_of corrupt_file,
               metadata := [(''error'', JString ''Failed to read EXIF metadata'')],
               gpsData := None\<rparr>)"
    using failure_keeps_preview [OF h, of "initial :: unit page"] by blast
  then have "handleFileChange (Some corrupt_file) (initial :: unit page) =
       Inr (initial\<lparr>imageSrc := Some (ObjectURL 0), urls := 1, calls := [Call_parse],
                    metadata := [(''error'', JString ''Failed to read EXIF metadata'')]\<rparr>)"
    by (simp add: intake_def corrupt_file_def initial_def calls_of_def)
  then show ?thesis using h by simp
qed

text \<open>
  C3, as stated, fails in its last part: after the rejected file has been selected once on
  a new page, selecting it again does not give the same state. The preview reference is a
  new object URL.
\<close>

theorem repeated_failure_counterexample:
  "handleFileChange (Some corrupt_file) initial = Inr failed_once
   \<and> handleFileChange (Some corrupt_file) failed_once \<noteq> Inr failed_once
   \<and> handleFileChange (Some corrupt_file) failed_once =
       Inr (failed_once\<lparr>imageSrc := Some (ObjectURL 1), urls := 2,
                        calls := [Call_parse, Call_parse]\<rparr>)"
proof -
  have h: "parse_fails corrupt_file" by (simp add: parse_fails_def corrupt_file_def)
  have c: "calls_of corrupt_file = [Call_parse]" by (simp add: calls_of_def corrupt_file_def)
  have one: "handleFileChange (Some corrupt_file) initial = Inr failed_once"
    by (simp add: handleFileChange_def extraction_fails [OF h] c catch_block_def intake_def
        failed_once_def initial_def)
  have two: "handleFileChange (Some corrupt_file) failed_once =
       Inr (failed_once\<lparr>imageSrc := Some (ObjectURL 1), urls := 2,
                        calls := [Call_parse, Call_parse]\<rparr>)"
    by (simp add: handleFileChange_def extraction_fails [OF h] c catch_block_def intake_def
        failed_once_def initial_def)
  have "failed_once\<lparr>imageSrc := Some (ObjectURL 1), urls := 2,
                        calls := [Call_parse, Call_parse]\<rparr> \<noteq> failed_once"
  proof
    assume "failed_once\<lparr>imageSrc := Some (ObjectURL 1), urls := 2,
                        calls := [Call_parse, Call_parse]\<rparr> = failed_once"
    then have "imageSrc (failed_once\<lparr>imageSrc := Some (ObjectURL 1), urls := 2,
                        calls := [Call_parse, Call_parse]\<rparr>) = imageSrc failed_once"
      by (rule arg_cong)
    then show False by (simp add: failed_once_def)
  qed
  then show ?thesis using one two by simp
qed

text \<open>
  C3, amended. When either awaited call throws for the selected file, no error leaves the
  handler: it ends in the state of the intake with the metadata replaced by the single
  entry \<open>error\<close> and the coordinate absent. There is no retry: \<open>exifr.parse\<close> has been called
  once and \<open>exifr.gps\<close> at most once. Selecting the same failing file again changes nothing
  but the preview reference, which is a new object URL (and, with it, the count of URLs
  and the record of calls): the metadata, the coordinate and all the rest are as after the
  first selection.
\<close>

theorem failure_gives_error_indicator:
  "parse_fails f \<Longrightarrow>
   \<exists>s1 s2. handleFileChange (Some f) s = Inr s1
      \<and> s1 = catch_block ((intake f s)\<lparr>calls := calls s @ calls_of f\<rparr>)
      \<and> metadata s1 = [(''error'', JString ''Failed to read EXIF metadata'')]
      \<and> gpsData s1 = None
      \<and> length (filter (\<lambda>c. c = Call_parse) (calls s1))
          = Suc (length (filter (\<lambda>c. c = Call_parse) (calls s)))
      \<and> length (filter (\<lambda>c. c = Call_gps) (calls s1))
          \<le> Suc (length (filter (\<lambda>c. c = Call_gps) (calls s)))
      \<and> handleFileChange (Some f) s1 = Inr s2
      \<and> s2 = s1\<lparr>imageSrc := Some (ObjectURL (urls s1)), urls := Suc (urls s1),
                 calls := calls s1 @ calls_of f\<rparr>
      \<and> metadata s2 = metadata s1
      \<and> gpsData s2 = gpsData s1"
  using parse_calls_of [of f] gps_calls_of [of f]
  by (simp add: handleFileChange_def extraction_fails catch_block_def intake_def)

theorem failure_gives_error_indicator_witness:
  "parse_fails corrupt_file
   \<and> (\<exists>s1 s2. handleFileChange (Some corrupt_file) (run plain shown_then_reselected initial) = Inr s1
        \<and> metadata s1 = [(''error'', JString ''Failed to read EXIF metadata'')]
        \<and> gpsData s1 = None
        \<and> handleFileChange (Some corrupt_file) s1 = Inr s2
        \<and> metadata s2 = metadata s1
        \<and> gpsData s2 = gpsData s1)"
proof -
  have h: "parse_fails corrupt_file" by (simp add: parse_fails_def corrupt_file_def)
  show ?thesis
    using h failure_gives_error_indicator [OF h, of "run plain shown_then_reselected initial"]
    by blast
qed

text \<open>
  C4. When both calls return, the coordinate is present exactly when the dedicated GPS call
  returned an object whose latitude and longitude are both there and truthy, and then it
  holds these two numbers. A missing result, a missing latitude or longitude, or a zero
  among them gives an absent coordinate, whatever tag object \<open>m\<close> the parser returned.
\<close>

theorem gps_validity:
  "exifr_parse f = Inr m \<Longrightarrow> exifr_gps f = Inr g \<Longrightarrow>
   \<exists>s'. handleFileChange (Some f) s = Inr s'
      \<and> (gpsData s' \<noteq> None \<longleftrightarrow>
            (\<exists>la lo. g = Some (GpsOutput (Some la) (Some lo)) \<and> truthy la \<and> truthy lo))
      \<and> (\<forall>la lo. g = Some (GpsOutput (Some la) (Some lo)) \<and> truthy la \<and> truthy lo \<longrightarrow>
            gpsData s' = Some \<lparr>ref = fresh s, latitude = la, longitude = lo\<rparr>)
      \<and> (g = None \<or> (\<exists>y. g = Some (GpsOutput None y)) \<or> (\<exists>x. g = Some (GpsOutput x None))
           \<or> (\<exists>y. g = Some (GpsOutput (Some (Num 0)) y)) \<or> (\<exists>x. g = Some (GpsOutput x (Some (Num 0))))
          \<longrightarrow> gpsData s' = None)"
  apply (simp add: handleFileChange_def extraction_ok intake_def)
  apply (cases g)
   apply (simp add: gps_state_def)
  subgoal for go
    apply (cases go)
    subgoal for x y
      by (cases x; cases y) (auto simp: gps_state_def)
    done
  done

theorem gps_validity_witness:
  "(\<exists>s'. handleFileChange (Some photo_sf) (initial :: unit page) = Inr s'
       \<and> gpsData s' = Some \<lparr>ref = 0, latitude = Num 37.7749, longitude = Num (-122.4194)\<rparr>)
   \<and> (\<exists>s'. handleFileChange (Some null_island) (initial :: unit page) = Inr s'
       \<and> gpsData s' = None)"
proof -
  have a: "exifr_gps photo_sf = Inr (Some (GpsOutput (Some (Num 37.7749)) (Some (Num (-122.4194)))))"
    by (simp add: photo_sf_def)
  obtain m where m: "exifr_parse photo_sf = Inr m" by (simp add: photo_sf_def)
  have b: "exifr_gps null_island = Inr (Some (GpsOutput (Some (Num 0)) (Some (Num 2.3522))))"
    by (simp add: null_island_def)
  obtain m' where m': "exifr_parse null_island = Inr m'" by (simp add: null_island_def)
  have f0: "fresh (initial :: unit page) = 0" by (simp add: initial_def)
  have "\<exists>s'. handleFileChange (Some photo_sf) (initial :: unit page) = Inr s'
       \<and> gpsData s' = Some \<lparr>ref = 0, latitude = Num 37.7749, longitude = Num (-122.4194)\<rparr>"
    using gps_validity [OF m a, of "initial :: unit page"] f0 by auto
  moreover have "\<exists>s'. handleFileChange (Some null_island) (initial :: unit page) = Inr s'
       \<and> gpsData s' = None"
    using gps_validity [OF m' b, of "initial :: unit page"] by auto
  ultimately show ?thesis by blast
qed



section \<open>The store of maps\<close>

lemma live_count:
  "length (live_maps s) = card {j. j < length (maps s) \<and> target (maps s ! j) \<noteq> None}"
  by (simp add: live_maps_def length_filter_conv_card)

lemma all_unbound_live: "all_unbound s \<longleftrightarrow> live_maps s = []"
  by (auto simp: all_unbound_def live_maps_def filter_empty_conv)

lemma all_unbound_boc: "all_unbound s \<Longrightarrow> bound_only_current s"
  by (simp add: all_unbound_def bound_only_current_def)

lemma bound_only_current_live:
  assumes "bound_only_current s"
  shows "length (live_maps s) \<le> 1"
proof -
  define S where "S = {j. j < length (maps s) \<and> target (maps s ! j) \<noteq> None}"
  have len: "length (live_maps s) = card S" unfolding S_def by (rule live_count)
  have "card S \<le> 1"
  proof (cases "mapInstance s")
    case None
    then have "S = {}" using assms by (auto simp: S_def bound_only_current_def)
    then show ?thesis by simp
  next
    case (Some i)
    then have "S \<subseteq> {i}" using assms by (auto simp: S_def bound_only_current_def)
    then have "card S \<le> card {i}" by (intro card_mono) auto
    then show ?thesis by simp
  qed
  then show ?thesis using len by simp
qed

lemma active_live:
  assumes "active s i"
  shows "length (live_maps s) = 1"
proof -
  define S where "S = {j. j < length (maps s) \<and> target (maps s ! j) \<noteq> None}"
  have len: "length (live_maps s) = card S" unfolding S_def by (rule live_count)
  have "S = {i}" using assms by (auto simp: S_def active_def bound_only_current_def)
  then show ?thesis using len by simp
qed

lemma unbind_all_unbound:
  assumes "bound_only_current s" "mapInstance s = Some i"
  shows "all_unbound (setTarget_undefined i s)"
proof -
  have "target m = None" if "m \<in> set ((maps s)[i := (maps s ! i)\<lparr>target := None\<rparr>])" for m
  proof -
    from that obtain j where j: "j < length (maps s)" "m = (maps s)[i := (maps s ! i)\<lparr>target := None\<rparr>] ! j"
      by (auto simp: in_set_conv_nth)
    show ?thesis
    proof (cases "j = i")
      case True
      then show ?thesis using j by simp
    next
      case False
      then have "target (maps s ! j) = None"
        using assms j(1) by (auto simp: bound_only_current_def)
      then show ?thesis using j False by simp
    qed
  qed
  then show ?thesis by (simp add: all_unbound_def setTarget_undefined_def)
qed

lemma construct_active:
  assumes "all_unbound c"
  shows "active (c\<lparr>maps := maps c @ [new_Map f g el], mapInstance := Some (length (maps c)),
                   cleanup := True\<rparr>) (length (maps c))"
proof -
  have t: "target (new_Map f g el) \<noteq> None" by (simp add: new_Map_def)
  have "j = length (maps c)"
    if "j < Suc (length (maps c))" "target ((maps c @ [new_Map f g el]) ! j) \<noteq> None" for j
  proof (rule ccontr)
    assume "j \<noteq> length (maps c)"
    then have lt: "j < length (maps c)" using that(1) by simp
    then have "target (maps c ! j) \<noteq> None" using that(2) by (simp add: nth_append)
    then show False using assms lt by (simp add: all_unbound_def)
  qed
  then show ?thesis using t by (auto simp: active_def bound_only_current_def)
qed

lemma all_unbound_cong: "maps t = maps s \<Longrightarrow> all_unbound t = all_unbound s"
  by (simp add: all_unbound_def)

lemma boc_cong:
  "maps t = maps s \<Longrightarrow> mapInstance t = mapInstance s \<Longrightarrow>
   bound_only_current t = bound_only_current s"
  by (simp add: bound_only_current_def)

lemma active_cong:
  "maps t = maps s \<Longrightarrow> mapInstance t = mapInstance s \<Longrightarrow> cleanup t = cleanup s \<Longrightarrow>
   active t i = active s i"
  by (simp add: active_def bound_only_current_def)

lemma inactive_cong:
  "maps t = maps s \<Longrightarrow> mapInstance t = mapInstance s \<Longrightarrow> cleanup t = cleanup s \<Longrightarrow>
   inactive t = inactive s"
  by (simp add: inactive_def all_unbound_def)

lemma maps_setTarget [simp]: "length (maps (setTarget_undefined i s)) = length (maps s)"
  by (simp add: setTarget_undefined_def)

lemma active_live_maps:
  assumes "active s i"
  shows "live_maps s = [maps s ! i]"
proof -
  have len: "length (live_maps s) = 1" using assms by (rule active_live)
  have "maps s ! i \<in> set (live_maps s)"
    using assms by (simp add: active_def live_maps_def)
  moreover obtain x where x: "live_maps s = [x]"
    using len by (cases "live_maps s") auto
  ultimately show ?thesis by simp
qed

section \<open>The traces of a render and of a removal\<close>

lemma initial_inv: "page_inv f initial"
  by (simp add: page_inv_def initial_def inactive_def all_unbound_def)

lemma render_unchanged:
  assumes "page_inv f s" "mounted s" "deps s = gpsData s"
  shows "render_trace f s = [s]"
proof (cases "gpsData s")
  case None
  then have "mapRef s = None" using assms by (simp add: page_inv_def)
  then have "commit_ref s = s" using None by (simp add: commit_ref_def)
  then show ?thesis using assms(3) by (simp add: render_trace_def)
next
  case (Some g)
  then obtain el where "mapRef s = Some el" using assms by (auto simp: page_inv_def)
  then have "commit_ref s = s" using Some by (simp add: commit_ref_def)
  then show ?thesis using assms(3) by (simp add: render_trace_def)
qed

lemma render_inactive_some:
  assumes "inactive s" "mapRef s = None" "deps s = None" "gpsData s = Some g"
  shows "render_trace f s =
     [s\<lparr>mapRef := Some (Div (fresh s)), fresh := Suc (fresh s)\<rparr>,
      s\<lparr>mapRef := Some (Div (fresh s)), fresh := Suc (fresh s),
        maps := maps s @ [new_Map f g (Div (fresh s))],
        mapInstance := Some (length (maps s)), cleanup := True, deps := Some g\<rparr>]"
proof -
  have c: "\<not> cleanup s" using assms(1) by (simp add: inactive_def)
  have s1: "commit_ref s = s\<lparr>mapRef := Some (Div (fresh s)), fresh := Suc (fresh s)\<rparr>"
    using assms by (simp add: commit_ref_def)
  show ?thesis
    unfolding render_trace_def s1 Let_def using assms(2-4) c
    by (simp add: run_cleanup_def effect_def)
qed

lemma run_cleanup_active:
  assumes "cleanup s" "mapInstance s = Some i"
  shows "run_cleanup s =
     [setTarget_undefined i s,
      (setTarget_undefined i s)\<lparr>mapInstance := None\<rparr>,
      (setTarget_undefined i s)\<lparr>mapInstance := None, cleanup := False\<rparr>]"
  using assms by (simp add: run_cleanup_def cleanup_trace_def)

lemma render_active_none:
  assumes "active s i" "deps s = Some d" "gpsData s = None"
  shows "render_trace f s =
     [s\<lparr>mapRef := None\<rparr>,
      setTarget_undefined i (s\<lparr>mapRef := None\<rparr>),
      (setTarget_undefined i (s\<lparr>mapRef := None\<rparr>))\<lparr>mapInstance := None\<rparr>,
      (setTarget_undefined i (s\<lparr>mapRef := None\<rparr>))\<lparr>mapInstance := None, cleanup := False\<rparr>,
      (setTarget_undefined i (s\<lparr>mapRef := None\<rparr>))\<lparr>mapInstance := None, cleanup := False,
         deps := None\<rparr>]"
proof -
  have s1: "commit_ref s = s\<lparr>mapRef := None\<rparr>" using assms by (simp add: commit_ref_def)
  have rc: "run_cleanup (s\<lparr>mapRef := None\<rparr>) =
     [setTarget_undefined i (s\<lparr>mapRef := None\<rparr>),
      (setTarget_undefined i (s\<lparr>mapRef := None\<rparr>))\<lparr>mapInstance := None\<rparr>,
      (setTarget_undefined i (s\<lparr>mapRef := None\<rparr>))\<lparr>mapInstance := None, cleanup := False\<rparr>]"
    using assms(1) by (intro run_cleanup_active) (simp_all add: active_def)
  show ?thesis
    unfolding render_trace_def s1 Let_def rc using assms(2,3)
    by (simp add: effect_def setTarget_undefined_def)
qed

lemma render_active_some:
  assumes "active s i" "deps s = Some d" "gpsData s = Some g" "d \<noteq> g" "mapRef s = Some el"
  shows "render_trace f s =
     [s,
      setTarget_undefined i s,
      (setTarget_undefined i s)\<lparr>mapInstance := None\<rparr>,
      (setTarget_undefined i s)\<lparr>mapInstance := None, cleanup := False\<rparr>,
      (setTarget_undefined i s)\<lparr>mapInstance := None, cleanup := False,
         maps := maps (setTarget_undefined i s) @ [new_Map f g el],
         mapInstance := Some (length (maps s)), cleanup := True, deps := Some g\<rparr>]"
proof -
  have s1: "commit_ref s = s" using assms by (simp add: commit_ref_def)
  have rc: "run_cleanup s =
     [setTarget_undefined i s,
      (setTarget_undefined i s)\<lparr>mapInstance := None\<rparr>,
      (setTarget_undefined i s)\<lparr>mapInstance := None, cleanup := False\<rparr>]"
    using assms(1) by (intro run_cleanup_active) (simp_all add: active_def)
  show ?thesis
    unfolding render_trace_def s1 Let_def rc using assms(2-5)
    by (simp add: effect_def setTarget_undefined_def)
qed

lemma page_inv_boc: "page_inv f s \<Longrightarrow> bound_only_current s"
  by (auto simp: page_inv_def inactive_def active_def all_unbound_boc split: if_splits option.splits)

lemma render_inv:
  assumes inv: "page_inv f s" and m: "mounted s"
  shows "(\<forall>t \<in> set (render_trace f s). bound_only_current t)
       \<and> page_inv f (last (render_trace f s))
       \<and> deps (last (render_trace f s)) = gpsData s
       \<and> gpsData (last (render_trace f s)) = gpsData s
       \<and> mounted (last (render_trace f s))
       \<and> pending (last (render_trace f s)) = pending s"
proof (cases "deps s = gpsData s")
  case True
  then have "render_trace f s = [s]" using inv m by (intro render_unchanged)
  then show ?thesis using inv m True by (simp add: page_inv_boc)
next
  case changed: False
  have fr: "\<forall>g. gpsData s = Some g \<longrightarrow> ref g < fresh s" using inv by (simp add: page_inv_def)
  show ?thesis
  proof (cases "deps s")
    case None
    then obtain g where g: "gpsData s = Some g" using changed by (cases "gpsData s") auto
    have ina: "inactive s" and mr: "mapRef s = None" using inv m None by (simp_all add: page_inv_def)
    define t1 where "t1 = s\<lparr>mapRef := Some (Div (fresh s)), fresh := Suc (fresh s)\<rparr>"
    define t2 where "t2 = t1\<lparr>maps := maps t1 @ [new_Map f g (Div (fresh s))],
        mapInstance := Some (length (maps t1)), cleanup := True\<rparr>"
    have tr: "render_trace f s = [t1, t2\<lparr>deps := Some g\<rparr>]"
      unfolding render_inactive_some [OF ina mr None g] t1_def t2_def by simp
    have u1: "all_unbound t1" using ina by (simp add: t1_def inactive_def all_unbound_def)
    have a2: "active t2 (length (maps t1))" unfolding t2_def using u1 by (rule construct_active)
    then have a3: "active (t2\<lparr>deps := Some g\<rparr>) (length (maps t1))"
      by (subst active_cong [where s = t2]) simp_all
    have "maps (t2\<lparr>deps := Some g\<rparr>) ! length (maps t1) = new_Map f g (Div (fresh s))"
      by (simp add: t2_def)
    then have "page_inv f (t2\<lparr>deps := Some g\<rparr>)"
      unfolding page_inv_def using a3 fr g m by (auto simp: t2_def t1_def)
    moreover have "bound_only_current t1" using u1 by (rule all_unbound_boc)
    moreover have "bound_only_current (t2\<lparr>deps := Some g\<rparr>)" using a3 by (simp add: active_def)
    ultimately show ?thesis using tr g m by (simp add: t2_def t1_def)
  next
    case (Some d)
    then obtain i el where act: "active s i" and el: "mapRef s = Some el"
      using inv m by (auto simp: page_inv_def)
    have boc: "bound_only_current s" and mi: "mapInstance s = Some i"
      using act by (simp_all add: active_def)
    show ?thesis
    proof (cases "gpsData s")
      case None
      define s1 where "s1 = s\<lparr>mapRef := None\<rparr>"
      define u where "u = setTarget_undefined i s1"
      have tr: "render_trace f s =
          [s1, u, u\<lparr>mapInstance := None\<rparr>, u\<lparr>mapInstance := None, cleanup := False\<rparr>,
           u\<lparr>mapInstance := None, cleanup := False, deps := None\<rparr>]"
        unfolding render_active_none [OF act Some None] s1_def u_def by simp
      have b1: "bound_only_current s1" using boc by (simp add: s1_def bound_only_current_def)
      have "mapInstance s1 = Some i" using mi by (simp add: s1_def)
      then have uu: "all_unbound u" unfolding u_def using b1 by (intro unbind_all_unbound)
      have b2: "bound_only_current u" using uu by (rule all_unbound_boc)
      have u3: "all_unbound (u\<lparr>mapInstance := None\<rparr>)" using uu by (simp add: all_unbound_def)
      have b3: "bound_only_current (u\<lparr>mapInstance := None\<rparr>)" using u3 by (rule all_unbound_boc)
      have b4: "bound_only_current (u\<lparr>mapInstance := None, cleanup := False\<rparr>)"
        using b3 by (simp add: bound_only_current_def)
      have b5: "bound_only_current (u\<lparr>mapInstance := None, cleanup := False, deps := None\<rparr>)"
        using b3 by (simp add: bound_only_current_def)
      have fin: "inactive (u\<lparr>mapInstance := None, cleanup := False, deps := None\<rparr>)"
        using uu by (simp add: inactive_def all_unbound_def)
      have "page_inv f (u\<lparr>mapInstance := None, cleanup := False, deps := None\<rparr>)"
        unfolding page_inv_def using fin m None
        by (simp add: u_def s1_def setTarget_undefined_def)
      then show ?thesis using tr b1 b2 b3 b4 b5 None m
        by (simp add: u_def s1_def setTarget_undefined_def)
    next
      case (Some g)
      have dg: "d \<noteq> g" using changed Some \<open>deps s = Some d\<close> by simp
      define u where "u = setTarget_undefined i s"
      define c where "c = u\<lparr>mapInstance := None, cleanup := False\<rparr>"
      define t2 where "t2 = c\<lparr>maps := maps c @ [new_Map f g el],
        mapInstance := Some (length (maps c)), cleanup := True\<rparr>"
      have tr: "render_trace f s = [s, u, u\<lparr>mapInstance := None\<rparr>, c, t2\<lparr>deps := Some g\<rparr>]"
        unfolding render_active_some [OF act \<open>deps s = Some d\<close> Some dg el] u_def c_def t2_def
        by simp
      have uu: "all_unbound u" unfolding u_def using boc mi by (rule unbind_all_unbound)
      have b2: "bound_only_current u" using uu by (rule all_unbound_boc)
      have u3: "all_unbound (u\<lparr>mapInstance := None\<rparr>)" using uu by (simp add: all_unbound_def)
      have b3: "bound_only_current (u\<lparr>mapInstance := None\<rparr>)" using u3 by (rule all_unbound_boc)
      have uc: "all_unbound c" using uu by (simp add: c_def all_unbound_def)
      have b4: "bound_only_current c" using uc by (rule all_unbound_boc)
      have a2: "active t2 (length (maps c))" unfolding t2_def using uc by (rule construct_active)
      then have a3: "active (t2\<lparr>deps := Some g\<rparr>) (length (maps c))"
        by (subst active_cong [where s = t2]) simp_all
      have b5: "bound_only_current (t2\<lparr>deps := Some g\<rparr>)" using a3 by (simp add: active_def)
      have "maps (t2\<lparr>deps := Some g\<rparr>) ! length (maps c) = new_Map f g el"
        by (simp add: t2_def)
      then have "page_inv f (t2\<lparr>deps := Some g\<rparr>)"
        unfolding page_inv_def using a3 fr Some m el
        by (auto simp: t2_def c_def u_def setTarget_undefined_def)
      then show ?thesis using tr boc b2 b3 b4 b5 Some m
        by (simp add: t2_def c_def u_def setTarget_undefined_def)
    qed
  qed
qed

lemma unmount_active:
  assumes "active s i"
  shows "unmount_trace s =
     [s\<lparr>mapRef := None\<rparr>,
      setTarget_undefined i (s\<lparr>mapRef := None\<rparr>),
      (setTarget_undefined i (s\<lparr>mapRef := None\<rparr>))\<lparr>mapInstance := None\<rparr>,
      (setTarget_undefined i (s\<lparr>mapRef := None\<rparr>))\<lparr>mapInstance := None, cleanup := False\<rparr>,
      (setTarget_undefined i (s\<lparr>mapRef := None\<rparr>))\<lparr>mapInstance := None, cleanup := False,
         mounted := False\<rparr>]"
proof -
  have rc: "run_cleanup (s\<lparr>mapRef := None\<rparr>) =
     [setTarget_undefined i (s\<lparr>mapRef := None\<rparr>),
      (setTarget_undefined i (s\<lparr>mapRef := None\<rparr>))\<lparr>mapInstance := None\<rparr>,
      (setTarget_undefined i (s\<lparr>mapRef := None\<rparr>))\<lparr>mapInstance := None, cleanup := False\<rparr>]"
    using assms by (intro run_cleanup_active) (simp_all add: active_def)
  show ?thesis unfolding unmount_trace_def Let_def rc by simp
qed

lemma unmount_inactive:
  assumes "inactive s"
  shows "unmount_trace s = [s\<lparr>mapRef := None\<rparr>, s\<lparr>mapRef := None, mounted := False\<rparr>]"
  using assms by (simp add: unmount_trace_def run_cleanup_def inactive_def Let_def)

lemma unmount_inv:
  assumes inv: "page_inv f s" and m: "mounted s"
  shows "(\<forall>t \<in> set (unmount_trace s). bound_only_current t)
       \<and> page_inv f (last (unmount_trace s))
       \<and> \<not> mounted (last (unmount_trace s))"
proof (cases "deps s")
  case None
  then have ina: "inactive s" using inv m by (simp add: page_inv_def)
  have u: "all_unbound s" using ina by (simp add: inactive_def)
  have b1: "bound_only_current (s\<lparr>mapRef := None\<rparr>)"
    using all_unbound_boc [OF u] by (simp add: bound_only_current_def)
  have b2: "bound_only_current (s\<lparr>mapRef := None, mounted := False\<rparr>)"
    using all_unbound_boc [OF u] by (simp add: bound_only_current_def)
  have "inactive (s\<lparr>mapRef := None, mounted := False\<rparr>)"
    using ina by (simp add: inactive_def all_unbound_def)
  then have "page_inv f (s\<lparr>mapRef := None, mounted := False\<rparr>)"
    using inv by (simp add: page_inv_def)
  then show ?thesis using b1 b2 by (simp add: unmount_inactive [OF ina])
next
  case (Some d)
  then obtain i where act: "active s i" using inv m by (auto simp: page_inv_def)
  have boc: "bound_only_current s" and mi: "mapInstance s = Some i"
    using act by (simp_all add: active_def)
  define s1 where "s1 = s\<lparr>mapRef := None\<rparr>"
  define u where "u = setTarget_undefined i s1"
  have tr: "unmount_trace s =
      [s1, u, u\<lparr>mapInstance := None\<rparr>, u\<lparr>mapInstance := None, cleanup := False\<rparr>,
       u\<lparr>mapInstance := None, cleanup := False, mounted := False\<rparr>]"
    unfolding unmount_active [OF act] s1_def u_def by simp
  have b1: "bound_only_current s1" using boc by (simp add: s1_def bound_only_current_def)
  have "mapInstance s1 = Some i" using mi by (simp add: s1_def)
  then have uu: "all_unbound u" unfolding u_def using b1 by (intro unbind_all_unbound)
  have b2: "bound_only_current u" using uu by (rule all_unbound_boc)
  have u3: "all_unbound (u\<lparr>mapInstance := None\<rparr>)" using uu by (simp add: all_unbound_def)
  have b3: "bound_only_current (u\<lparr>mapInstance := None\<rparr>)" using u3 by (rule all_unbound_boc)
  have b4: "bound_only_current (u\<lparr>mapInstance := None, cleanup := False\<rparr>)"
    using b3 by (simp add: bound_only_current_def)
  have b5: "bound_only_current (u\<lparr>mapInstance := None, cleanup := False, mounted := False\<rparr>)"
    using b3 by (simp add: bound_only_current_def)
  have fin: "inactive (u\<lparr>mapInstance := None, cleanup := False, mounted := False\<rparr>)"
    using uu by (simp add: inactive_def all_unbound_def)
  have "page_inv f (u\<lparr>mapInstance := None, cleanup := False, mounted := False\<rparr>)"
    unfolding page_inv_def using fin inv
    by (simp add: u_def s1_def setTarget_undefined_def page_inv_def)
  then show ?thesis using tr b1 b2 b3 b4 b5 by simp
qed

lemma unmount_gps:
  assumes "page_inv f s" "mounted s"
  shows "gpsData (last (unmount_trace s)) = gpsData s"
proof (cases "deps s")
  case None
  then have "inactive s" using assms by (simp add: page_inv_def)
  then show ?thesis by (simp add: unmount_inactive)
next
  case (Some d)
  then obtain i where "active s i" using assms by (auto simp: page_inv_def)
  then show ?thesis by (simp add: unmount_active setTarget_undefined_def)
qed

section \<open>Every reachable state satisfies the invariant\<close>

lemma gps_state_ref: "gps_state g r = Some x \<Longrightarrow> ref x = r"
  by (auto simp: gps_state_def split: option.splits if_splits)

lemma gps_state_indep: "(gps_state g r = None) = (gps_state g r' = None)"
  by (auto simp: gps_state_def split: option.splits if_splits)

lemma extraction_cases:
  "\<exists>cs md gd. extraction file s = Inr (s\<lparr>calls := calls s @ cs, metadata := md, gpsData := gd,
        fresh := (if gd = None then fresh s else Suc (fresh s))\<rparr>)
      \<and> (\<forall>x. gd = Some x \<longrightarrow> ref x = fresh s)"
proof (cases "parse_fails file")
  case True
  then have "extraction file s = Inr (s\<lparr>calls := calls s @ calls_of file,
      metadata := [(''error'', JString ''Failed to read EXIF metadata'')],
      gpsData := None, fresh := (if (None :: gps option) = None then fresh s else Suc (fresh s))\<rparr>)"
    by (simp add: extraction_fails catch_block_def)
  then show ?thesis by blast
next
  case False
  then obtain m g where mg: "exifr_parse file = Inr m" "exifr_gps file = Inr g"
    by (auto simp: parse_fails_def split: sum.splits)
  then have "extraction file s = Inr (s\<lparr>calls := calls s @ [Call_parse, Call_gps],
       metadata := filtered m, gpsData := gps_state g (fresh s),
       fresh := (if gps_state g (fresh s) = None then fresh s else Suc (fresh s))\<rparr>)"
    by (rule extraction_ok)
  moreover have "\<forall>x. gps_state g (fresh s) = Some x \<longrightarrow> ref x = fresh s"
    using gps_state_ref by blast
  ultimately show ?thesis by blast
qed

lemma page_inv_fresh: "page_inv f s \<Longrightarrow> gpsData s = Some g \<Longrightarrow> ref g < fresh s"
  by (simp add: page_inv_def)

lemma page_inv_frame:
  assumes "page_inv f s"
    and "maps t = maps s" "mapInstance t = mapInstance s" "cleanup t = cleanup s"
    and "deps t = deps s" "mapRef t = mapRef s" "mounted t = mounted s"
    and "fresh s \<le> fresh t" "\<forall>g. gpsData t = Some g \<longrightarrow> ref g < fresh t"
  shows "page_inv f t"
proof -
  have a: "active t i = active s i" for i using assms(2-4) by (rule active_cong)
  have b: "inactive t = inactive s" using assms(2-4) by (rule inactive_cong)
  have c: "\<forall>g. deps t = Some g \<longrightarrow> ref g < fresh t"
    using assms(1,5,8) by (auto simp: page_inv_def)
  have "(if mounted s then
          (case deps s of
             None \<Rightarrow> inactive s \<and> mapRef s = None
           | Some d \<Rightarrow>
               (\<exists>i el. active s i \<and> mapRef s = Some el \<and> maps s ! i = new_Map f d el))
        else inactive s)"
    using assms(1) unfolding page_inv_def by (elim conjE)
  then have "(if mounted t then
          (case deps t of
             None \<Rightarrow> inactive t \<and> mapRef t = None
           | Some d \<Rightarrow>
               (\<exists>i el. active t i \<and> mapRef t = Some el \<and> maps t ! i = new_Map f d el))
        else inactive t)"
    by (simp only: a b assms(2,5,6,7))
  then show ?thesis unfolding page_inv_def using c assms(9) by (intro conjI)
qed

lemma extraction_inv:
  assumes "page_inv f s" "extraction file s = Inr s1"
  shows "page_inv f s1 \<and> deps s1 = deps s \<and> mounted s1 = mounted s \<and> pending s1 = pending s"
proof -
  obtain cs md gd where e: "extraction file s = Inr (s\<lparr>calls := calls s @ cs, metadata := md, gpsData := gd,
        fresh := (if gd = None then fresh s else Suc (fresh s))\<rparr>)"
      and r: "\<forall>x. gd = Some x \<longrightarrow> ref x = fresh s"
    using extraction_cases [of "file" s] by blast
  have s1: "s1 = s\<lparr>calls := calls s @ cs, metadata := md, gpsData := gd,
        fresh := (if gd = None then fresh s else Suc (fresh s))\<rparr>"
    using e assms(2) by simp
  have fr: "\<forall>g. gpsData s1 = Some g \<longrightarrow> ref g < fresh s1" using r by (auto simp: s1)
  have "page_inv f s1"
    using assms(1) by (rule page_inv_frame) (use fr in \<open>simp_all add: s1\<close>)
  then show ?thesis by (simp add: s1)
qed

lemma step_inv:
  assumes "reach_inv f s"
  shows "reach_inv f (step f ev s) \<and> (\<forall>t \<in> set (step_trace f ev s). bound_only_current t)"
proof (cases ev)
  case (Select e)
  show ?thesis
  proof (cases "mounted s \<and> e \<noteq> None")
    case False
    then have "step_trace f ev s = []" using Select by (auto simp: step_trace_def)
    then show ?thesis using assms by (simp add: step_def)
  next
    case True
    then obtain sel where fl: "e = Some sel" by auto
    define s1 where "s1 = (intake sel s)\<lparr>pending := pending s @ [sel]\<rparr>"
    have tr: "step_trace f ev s = s1 # render_trace f s1"
      using Select fl True by (simp add: step_trace_def s1_def Let_def)
    have inv: "page_inv f s" using assms by (simp add: reach_inv_def)
    have fr: "\<forall>g. gpsData s1 = Some g \<longrightarrow> ref g < fresh s1"
      using page_inv_fresh [OF inv] by (simp add: s1_def intake_def)
    have inv1: "page_inv f s1"
      using inv by (rule page_inv_frame) (use fr in \<open>simp_all add: s1_def intake_def\<close>)
    have m1: "mounted s1" using True by (simp add: s1_def intake_def)
    have ne: "render_trace f s1 \<noteq> []" by (simp add: render_trace_def Let_def)
    have "reach_inv f (last (render_trace f s1))"
      using render_inv [OF inv1 m1] by (simp add: reach_inv_def)
    then show ?thesis
      using render_inv [OF inv1 m1] page_inv_boc [OF inv1] tr ne by (simp add: step_def)
  qed
next
  case (Resolve k)
  show ?thesis
  proof (cases "k < length (pending s)")
    case False
    then have "step_trace f ev s = []" using Resolve by (simp add: step_trace_def)
    then show ?thesis using assms by (simp add: step_def)
  next
    case True
    define s0 where "s0 = s\<lparr>pending := take k (pending s) @ drop (Suc k) (pending s)\<rparr>"
    have inv: "page_inv f s" using assms by (simp add: reach_inv_def)
    have fr: "\<forall>g. gpsData s0 = Some g \<longrightarrow> ref g < fresh s0"
      using page_inv_fresh [OF inv] by (simp add: s0_def)
    have inv0: "page_inv f s0"
      using inv by (rule page_inv_frame) (use fr in \<open>simp_all add: s0_def\<close>)
    show ?thesis
    proof (cases "mounted s")
      case False
      then have tr: "step_trace f ev s = [s0]"
        using Resolve True by (simp add: step_trace_def s0_def Let_def)
      have "reach_inv f s0" using inv0 False by (simp add: reach_inv_def s0_def)
      then show ?thesis using tr page_inv_boc [OF inv0] by (simp add: step_def)
    next
      case m: True
      obtain s1 where ex: "extraction (pending s ! k) s0 = Inr s1"
        using extraction_cases [of "pending s ! k" s0] by blast
      have tr: "step_trace f ev s = s1 # render_trace f s1"
        using Resolve True m ex by (simp add: step_trace_def s0_def Let_def)
      have inv1: "page_inv f s1" and m1: "mounted s1"
        using extraction_inv [OF inv0 ex] m by (simp_all add: s0_def)
      have ne: "render_trace f s1 \<noteq> []" by (simp add: render_trace_def Let_def)
      have "reach_inv f (last (render_trace f s1))"
        using render_inv [OF inv1 m1] by (simp add: reach_inv_def)
      then show ?thesis
        using render_inv [OF inv1 m1] page_inv_boc [OF inv1] tr ne by (simp add: step_def)
    qed
  qed
next
  case Unmount
  show ?thesis
  proof (cases "mounted s")
    case False
    then have "step_trace f ev s = []" using Unmount by (simp add: step_trace_def)
    then show ?thesis using assms by (simp add: step_def)
  next
    case True
    have inv: "page_inv f s" using assms by (simp add: reach_inv_def)
    have tr: "step_trace f ev s = unmount_trace s" using Unmount True by (simp add: step_trace_def)
    have ne: "unmount_trace s \<noteq> []" by (simp add: unmount_trace_def Let_def)
    show ?thesis using unmount_inv [OF inv True] tr ne by (simp add: step_def reach_inv_def)
  qed
qed

lemma run_snoc: "run f (evs @ [ev]) s = step f ev (run f evs s)"
  by (simp add: run_def)

lemma run_inv: "reach_inv f (run f evs initial)"
proof (induction evs rule: rev_induct)
  case Nil
  show ?case using initial_inv [of f] by (simp add: run_def reach_inv_def initial_def)
next
  case (snoc ev evs)
  then show ?case using step_inv [of f "run f evs initial" ev] by (simp add: run_snoc)
qed

lemma is_selection_simps:
  "is_selection (Select e) = (e \<noteq> None)"
  "is_selection (Resolve k) = False"
  "is_selection Unmount = False"
  by (simp_all add: is_selection_def)

lemma reach_live:
  assumes "reach_inv f s"
  shows "live_maps s =
     (case gpsData s of
        None \<Rightarrow> []
      | Some g \<Rightarrow> if mounted s then [new_Map f g (the (mapRef s))] else [])"
proof (cases "mounted s")
  case False
  then have "inactive s" using assms by (simp add: reach_inv_def page_inv_def)
  then have "live_maps s = []" by (simp add: inactive_def all_unbound_live)
  then show ?thesis using False by (simp split: option.splits)
next
  case True
  then have d: "deps s = gpsData s" and inv: "page_inv f s" using assms by (simp_all add: reach_inv_def)
  show ?thesis
  proof (cases "gpsData s")
    case None
    then have "inactive s" using inv d True by (simp add: page_inv_def)
    then have "live_maps s = []" by (simp add: inactive_def all_unbound_live)
    then show ?thesis using None by simp
  next
    case (Some g)
    then obtain i el where "active s i" "mapRef s = Some el" "maps s ! i = new_Map f g el"
      using inv d True by (auto simp: page_inv_def)
    then show ?thesis using Some True active_live_maps [of s i] by simp
  qed
qed

lemma step_select:
  assumes "reach_inv f s" "mounted s"
  shows "pending (step f (Select (Some fl)) s) = pending s @ [fl]
       \<and> gpsData (step f (Select (Some fl)) s) = gpsData s
       \<and> mounted (step f (Select (Some fl)) s)"
proof -
  define s1 where "s1 = (intake fl s)\<lparr>pending := pending s @ [fl]\<rparr>"
  have tr: "step_trace f (Select (Some fl)) s = s1 # render_trace f s1"
    using assms(2) by (simp add: step_trace_def s1_def Let_def)
  have inv: "page_inv f s" using assms by (simp add: reach_inv_def)
  have fr: "\<forall>g. gpsData s1 = Some g \<longrightarrow> ref g < fresh s1"
    using page_inv_fresh [OF inv] by (simp add: s1_def intake_def)
  have inv1: "page_inv f s1"
    using inv by (rule page_inv_frame) (use fr in \<open>simp_all add: s1_def intake_def\<close>)
  have m1: "mounted s1" using assms(2) by (simp add: s1_def intake_def)
  have ne: "render_trace f s1 \<noteq> []" by (simp add: render_trace_def Let_def)
  show ?thesis
    using render_inv [OF inv1 m1] tr ne by (simp add: step_def s1_def intake_def)
qed

lemma extraction_yields:
  assumes "yields_gps fl"
  shows "\<exists>s1. extraction fl s = Inr s1 \<and> gpsData s1 \<noteq> None"
proof -
  obtain m g where mg: "exifr_parse fl = Inr m" "exifr_gps fl = Inr g" "gps_state g 0 \<noteq> None"
    using assms by (auto simp: yields_gps_def split: sum.splits)
  have "gps_state g (fresh s) \<noteq> None" using mg(3) gps_state_indep [of g 0 "fresh s"] by simp
  then show ?thesis using mg by (simp add: extraction_ok)
qed

lemma step_resolve:
  assumes "reach_inv f s" "mounted s" "k < length (pending s)"
  shows "pending (step f (Resolve k) s) = take k (pending s) @ drop (Suc k) (pending s)
       \<and> (yields_gps (pending s ! k) \<longrightarrow> gpsData (step f (Resolve k) s) \<noteq> None)
       \<and> mounted (step f (Resolve k) s)"
proof -
  define s0 where "s0 = s\<lparr>pending := take k (pending s) @ drop (Suc k) (pending s)\<rparr>"
  have inv: "page_inv f s" using assms by (simp add: reach_inv_def)
  have fr: "\<forall>g. gpsData s0 = Some g \<longrightarrow> ref g < fresh s0"
    using page_inv_fresh [OF inv] by (simp add: s0_def)
  have inv0: "page_inv f s0"
    using inv by (rule page_inv_frame) (use fr in \<open>simp_all add: s0_def\<close>)
  obtain s1 where ex: "extraction (pending s ! k) s0 = Inr s1"
    using extraction_cases [of "pending s ! k" s0] by blast
  have y: "yields_gps (pending s ! k) \<longrightarrow> gpsData s1 \<noteq> None"
    using extraction_yields [of "pending s ! k" s0] ex by auto
  have tr: "step_trace f (Resolve k) s = s1 # render_trace f s1"
    using assms(2,3) ex by (simp add: step_trace_def s0_def Let_def)
  have inv1: "page_inv f s1" and m1: "mounted s1" and p1: "pending s1 = pending s0"
    using extraction_inv [OF inv0 ex] assms(2) by (simp_all add: s0_def)
  have ne: "render_trace f s1 \<noteq> []" by (simp add: render_trace_def Let_def)
  show ?thesis
    using render_inv [OF inv1 m1] tr ne y p1 by (simp add: step_def s0_def)
qed

lemma step_resolve_skip: "\<not> k < length (pending s) \<Longrightarrow> step f (Resolve k) s = s"
  by (simp add: step_def step_trace_def)

lemma selections_settle:
  assumes "list_all selection_event evs"
  shows "mounted (run f evs initial)
       \<and> list_all yields_gps (pending (run f evs initial))
       \<and> (filter is_selection evs = [] \<or> pending (run f evs initial) \<noteq> []
            \<or> gpsData (run f evs initial) \<noteq> None)"
  using assms
proof (induction evs rule: rev_induct)
  case Nil
  show ?case by (simp add: run_def initial_def)
next
  case (snoc ev evs)
  let ?s = "run f evs initial"
  have ih: "mounted ?s" "list_all yields_gps (pending ?s)"
      "filter is_selection evs = [] \<or> pending ?s \<noteq> [] \<or> gpsData ?s \<noteq> None"
    using snoc by simp_all
  have ri: "reach_inv f ?s" by (rule run_inv)
  have sev: "selection_event ev" using snoc.prems by simp
  show ?case
  proof (cases ev)
    case (Select e)
    then obtain fl where fl: "e = Some fl" "yields_gps fl"
      using sev by (auto simp: selection_event_def split: option.splits)
    show ?thesis
      using step_select [OF ri ih(1), of fl] ih(2) fl Select by (simp add: run_snoc)
  next
    case (Resolve k)
    show ?thesis
    proof (cases "k < length (pending ?s)")
      case False
      then show ?thesis
        using step_resolve_skip [of k ?s f] ih Resolve by (simp add: run_snoc is_selection_simps)
    next
      case True
      have y: "yields_gps (pending ?s ! k)" using ih(2) True by (simp add: list_all_length)
      have "list_all yields_gps (take k (pending ?s) @ drop (Suc k) (pending ?s))"
        using ih(2) by (auto simp: list_all_iff dest: in_set_takeD in_set_dropD)
      then show ?thesis
        using step_resolve [OF ri ih(1) True] y ih(3) Resolve
        by (simp add: run_snoc is_selection_simps)
    qed
  next
    case Unmount
    then show ?thesis using sev by (simp add: selection_event_def)
  qed
qed

lemmas page_defs = run_def step_def step_trace_def render_trace_def commit_ref_def run_cleanup_def
  cleanup_trace_def effect_def setTarget_undefined_def extraction_def try_block_def catch_block_def
  intake_def gps_state_def initial_def Let_def

lemmas example_defs = photo_sf_def photo_paris_def plain_def two_selections_def
  shown_then_reselected_def

text \<open>
  C1. In every state the page reaches from its first render, by any sequence of change
  events, handler completions and a removal: while the page is mounted a live map exists
  exactly when the coordinate is present; at most one map is live; and at most one map
  is live in each state passed through during the next event. When the events are file
  selections that each yield a coordinate, at least one of them, and all their handlers
  have completed, exactly one map is live, and it is the map built for the current
  coordinate.
\<close>

theorem single_map_invariant:
  "(mounted (run f evs initial) \<longrightarrow>
      (live_maps (run f evs initial) \<noteq> []) = (gpsData (run f evs initial) \<noteq> None))
   \<and> length (live_maps (run f evs initial)) \<le> 1
   \<and> (\<forall>t \<in> set (step_trace f ev (run f evs initial)). length (live_maps t) \<le> 1)
   \<and> (list_all selection_event evs \<and> filter is_selection evs \<noteq> []
        \<and> pending (run f evs initial) = [] \<longrightarrow>
      (\<exists>g el. gpsData (run f evs initial) = Some g \<and> mapRef (run f evs initial) = Some el
         \<and> live_maps (run f evs initial) = [new_Map f g el]))"
proof -
  let ?s = "run f evs initial"
  have ri: "reach_inv f ?s" by (rule run_inv)
  have lm: "live_maps ?s =
     (case gpsData ?s of None \<Rightarrow> []
      | Some g \<Rightarrow> if mounted ?s then [new_Map f g (the (mapRef ?s))] else [])"
    using ri by (rule reach_live)
  have a: "mounted ?s \<longrightarrow> (live_maps ?s \<noteq> []) = (gpsData ?s \<noteq> None)"
    unfolding lm by (simp split: option.splits)
  have b: "length (live_maps ?s) \<le> 1"
    unfolding lm by (simp split: option.splits)
  have c: "\<forall>t \<in> set (step_trace f ev ?s). length (live_maps t) \<le> 1"
    using step_inv [OF ri, of ev] bound_only_current_live by blast
  have d: "\<exists>g el. gpsData ?s = Some g \<and> mapRef ?s = Some el \<and> live_maps ?s = [new_Map f g el]"
    if h: "list_all selection_event evs" "filter is_selection evs \<noteq> []" "pending ?s = []"
  proof -
    have m: "mounted ?s" and g: "gpsData ?s \<noteq> None"
      using selections_settle [OF h(1), of f] h(2,3) by auto
    then obtain g where gg: "gpsData ?s = Some g" by auto
    have "deps ?s = Some g" using ri m gg by (simp add: reach_inv_def)
    then obtain el where "mapRef ?s = Some el"
      using ri m by (auto simp: reach_inv_def page_inv_def)
    then show ?thesis using lm gg m by simp
  qed
  show ?thesis using a b c d by blast
qed

theorem single_map_invariant_witness:
  "list_all selection_event two_selections
   \<and> filter is_selection two_selections \<noteq> []
   \<and> pending (run plain two_selections initial) = []
   \<and> mounted (run plain two_selections initial)
   \<and> length (step_trace plain Unmount (run plain two_selections initial)) = 5
   \<and> gpsData (run plain two_selections initial)
       = Some \<lparr>ref = 2, latitude = Num 37.7749, longitude = Num (-122.4194)\<rparr>
   \<and> live_maps (run plain two_selections initial)
       = [new_Map plain \<lparr>ref = 2, latitude = Num 37.7749, longitude = Num (-122.4194)\<rparr> (Div 1)]
   \<and> list_all (\<lambda>t. length (live_maps t) \<le> 1)
         (step_trace plain Unmount (run plain two_selections initial))"
proof -
  have h1: "list_all selection_event two_selections"
    by (simp add: selection_event_def yields_gps_def gps_state_def example_defs)
  have h2: "filter is_selection two_selections \<noteq> []"
    by (simp add: is_selection_def example_defs)
  have h3: "pending (run plain two_selections initial) = []"
    by (simp add: page_defs example_defs)
  have h4: "mounted (run plain two_selections initial)"
    by (simp add: page_defs example_defs)
  have h5: "length (step_trace plain Unmount (run plain two_selections initial)) = 5"
    by (simp add: page_defs unmount_trace_def example_defs)
  have h6: "gpsData (run plain two_selections initial)
       = Some \<lparr>ref = 2, latitude = Num 37.7749, longitude = Num (-122.4194)\<rparr>"
    by (simp add: page_defs example_defs)
  have h7: "mapRef (run plain two_selections initial) = Some (Div 1)"
    by (simp add: page_defs example_defs)
  show ?thesis
    using h1 h2 h3 h4 h5 h6 h7 single_map_invariant [of plain two_selections Unmount]
    by (auto simp: list_all_iff)
qed

section \<open>Leaving the active state\<close>

lemma smc_same: "maps t = maps s \<Longrightarrow> same_maps_content s t"
  by (simp add: same_maps_content_def)

lemma unbind_nth:
  "j < length xs \<Longrightarrow>
     layers (xs[i := (xs ! i)\<lparr>target := None\<rparr>] ! j) = layers (xs ! j)
   \<and> view (xs[i := (xs ! i)\<lparr>target := None\<rparr>] ! j) = view (xs ! j)"
  by (cases "j = i") simp_all

lemma smc_unbind:
  "maps t = (maps s)[i := (maps s ! i)\<lparr>target := None\<rparr>] \<Longrightarrow> same_maps_content s t"
  by (simp add: same_maps_content_def unbind_nth)

lemma smc_unbind_append:
  "maps t = (maps s)[i := (maps s ! i)\<lparr>target := None\<rparr>] @ [m] \<Longrightarrow> same_maps_content s t"
  by (simp add: same_maps_content_def unbind_nth nth_append)

lemma torn_down_unbind:
  assumes "active s i" "maps t = (maps s)[i := (maps s ! i)\<lparr>target := None\<rparr>]"
    "mapInstance t = None"
  shows "torn_down i t"
proof -
  have i: "i < length (maps s)" and boc: "bound_only_current s" and mi: "mapInstance s = Some i"
    using assms(1) by (simp_all add: active_def)
  have "all_unbound (setTarget_undefined i s)" using boc mi by (rule unbind_all_unbound)
  then have "all_unbound t" using assms(2) by (simp add: all_unbound_def setTarget_undefined_def)
  then have "live_maps t = []" by (simp add: all_unbound_live)
  then show ?thesis using assms(2,3) i by (simp add: torn_down_def)
qed

lemma exit_trace:
  assumes act: "active s i"
    and tr: "tr = pre @ [u, v, w, z]"
    and pre: "\<forall>t \<in> set pre. maps t = maps s"
    and u: "maps u = (maps s)[i := (maps s ! i)\<lparr>target := None\<rparr>]"
    and v: "maps v = maps u" "mapInstance v = None"
    and w: "maps w = maps u"
    and z: "maps z = maps u \<or> (\<exists>m. maps z = maps u @ [m])"
  shows "(\<exists>n<length tr. torn_down i (tr ! n)
            \<and> (\<forall>m\<le>n. length (maps (tr ! m)) = length (maps s)))
       \<and> (\<forall>t \<in> set tr. same_maps_content s t)
       \<and> target (maps (last tr) ! i) = None"
proof -
  have i: "i < length (maps s)" using act by (simp add: active_def)
  have td: "torn_down i v" using act v u by (intro torn_down_unbind [of s]) simp_all
  have lens: "\<forall>m\<le>Suc (length pre). length (maps (tr ! m)) = length (maps s)"
  proof (intro allI impI)
    fix m :: nat assume "m \<le> Suc (length pre)"
    then consider "m < length pre" | "m = length pre" | "m = Suc (length pre)" by linarith
    then show "length (maps (tr ! m)) = length (maps s)"
    proof cases
      case 1
      then have "tr ! m \<in> set pre" by (simp add: tr nth_append)
      then show ?thesis using pre by simp
    next
      case 2
      then show ?thesis by (simp add: tr u)
    next
      case 3
      then show ?thesis by (simp add: tr nth_append u v)
    qed
  qed
  have first: "\<exists>n<length tr. torn_down i (tr ! n)
            \<and> (\<forall>m\<le>n. length (maps (tr ! m)) = length (maps s))"
  proof (intro exI [of _ "Suc (length pre)"] conjI)
    show "Suc (length pre) < length tr" by (simp add: tr)
    show "torn_down i (tr ! Suc (length pre))" using td by (simp add: tr nth_append)
    show "\<forall>m\<le>Suc (length pre). length (maps (tr ! m)) = length (maps s)" by (rule lens)
  qed
  have sz: "same_maps_content s z"
    using z u by (auto intro: smc_unbind smc_unbind_append)
  have sp: "\<forall>t \<in> set pre. same_maps_content s t" using pre smc_same by blast
  have second: "\<forall>t \<in> set tr. same_maps_content s t"
    using sz sp smc_unbind [of u s i] smc_unbind [of v s i] smc_unbind [of w s i] u v w
    by (auto simp: tr)
  have third: "target (maps (last tr) ! i) = None"
    using z u i by (auto simp: tr nth_append)
  show ?thesis using first second third by blast
qed

lemma active_mounted:
  assumes "reach_inv f s" "mapInstance s = Some i"
  shows "active s i \<and> mounted s \<and> (\<exists>d el. deps s = Some d \<and> gpsData s = Some d \<and> mapRef s = Some el)"
proof -
  have inv: "page_inv f s" using assms(1) by (simp add: reach_inv_def)
  have m: "mounted s"
  proof (rule ccontr)
    assume "\<not> mounted s"
    then have "inactive s" using inv by (simp add: page_inv_def)
    then show False using assms(2) by (simp add: inactive_def)
  qed
  have d: "deps s = gpsData s" using assms(1) m by (simp add: reach_inv_def)
  show ?thesis
  proof (cases "deps s")
    case None
    then have "inactive s" using inv m by (simp add: page_inv_def)
    then show ?thesis using assms(2) by (simp add: inactive_def)
  next
    case (Some d')
    then obtain i' el where a: "active s i'" "mapRef s = Some el"
      using inv m by (auto simp: page_inv_def)
    then have "i' = i" using assms(2) by (simp add: active_def)
    moreover have "gpsData s = Some d'" using d Some by simp
    ultimately show ?thesis using a m Some by blast
  qed
qed

text \<open>
  C5. In a reachable state with a live map \<open>i\<close>, every event that leaves the active
  state (a handler completing, whether with a new coordinate, with none or with a failure, or
  the removal of the component) passes through a state in which map \<open>i\<close> is unbound from
  its target, \<open>mapInstance.current\<close> is \<open>null\<close> and no map is live, and up to that state no
  map has been constructed. In every state passed through, each map that existed before
  keeps its layers and its view. Afterwards map \<open>i\<close> stays unbound and is no longer
  referred to.
\<close>

theorem teardown_on_exit:
  assumes s: "s = run f evs initial"
    and mi: "mapInstance s = Some i"
    and ev: "ev = Unmount \<or> (\<exists>k. ev = Resolve k \<and> k < length (pending s))"
  shows "(\<exists>n<length (step_trace f ev s).
            torn_down i (step_trace f ev s ! n)
          \<and> (\<forall>m\<le>n. length (maps (step_trace f ev s ! m)) = length (maps s)))
       \<and> (\<forall>t \<in> set (step_trace f ev s). same_maps_content s t)
       \<and> target (maps (step f ev s) ! i) = None
       \<and> mapInstance (step f ev s) \<noteq> Some i"
proof -
  have ri: "reach_inv f s" unfolding s by (rule run_inv)
  obtain d el where act: "active s i" and m: "mounted s"
      and d: "deps s = Some d" "gpsData s = Some d" and el: "mapRef s = Some el"
    using active_mounted [OF ri mi] by blast
  have i: "i < length (maps s)" using act by (simp add: active_def)
  have inv: "page_inv f s" using ri by (simp add: reach_inv_def)
  have main: "\<exists>pre u v w z. step_trace f ev s = pre @ [u, v, w, z]
      \<and> (\<forall>t \<in> set pre. maps t = maps s)
      \<and> maps u = (maps s)[i := (maps s ! i)\<lparr>target := None\<rparr>]
      \<and> maps v = maps u \<and> mapInstance v = None \<and> maps w = maps u
      \<and> (maps z = maps u \<and> mapInstance z = None
           \<or> (\<exists>m. maps z = maps u @ [m] \<and> mapInstance z = Some (length (maps s))))"
  proof (cases "ev = Unmount")
    case True
    then have "step_trace f ev s = unmount_trace s" using m by (simp add: step_trace_def)
    then have "step_trace f ev s = [s\<lparr>mapRef := None\<rparr>] @
       [setTarget_undefined i (s\<lparr>mapRef := None\<rparr>),
        (setTarget_undefined i (s\<lparr>mapRef := None\<rparr>))\<lparr>mapInstance := None\<rparr>,
        (setTarget_undefined i (s\<lparr>mapRef := None\<rparr>))\<lparr>mapInstance := None, cleanup := False\<rparr>,
        (setTarget_undefined i (s\<lparr>mapRef := None\<rparr>))\<lparr>mapInstance := None, cleanup := False,
           mounted := False\<rparr>]"
      by (simp add: unmount_active [OF act])
    then show ?thesis
      by (intro exI conjI, assumption) (simp_all add: setTarget_undefined_def)
  next
    case False
    then obtain k where k: "ev = Resolve k" "k < length (pending s)" using ev by auto
    define s0 where "s0 = s\<lparr>pending := take k (pending s) @ drop (Suc k) (pending s)\<rparr>"
    obtain cs md gd where ex: "extraction (pending s ! k) s0 = Inr (s0\<lparr>calls := calls s0 @ cs, metadata := md, gpsData := gd,
        fresh := (if gd = None then fresh s0 else Suc (fresh s0))\<rparr>)"
      and r: "\<forall>x. gd = Some x \<longrightarrow> ref x = fresh s0"
      using extraction_cases [of "pending s ! k" s0] by blast
    define s1 where "s1 = s0\<lparr>calls := calls s0 @ cs, metadata := md, gpsData := gd,
        fresh := (if gd = None then fresh s0 else Suc (fresh s0))\<rparr>"
    have tr: "step_trace f ev s = s1 # render_trace f s1"
      using k m ex by (simp add: step_trace_def s0_def s1_def Let_def)
    have act1: "active s1 i"
      using act by (subst active_cong [where s = s]) (simp_all add: s1_def s0_def)
    have d1: "deps s1 = Some d" and el1: "mapRef s1 = Some el" and g1: "gpsData s1 = gd"
      and mp: "maps s1 = maps s"
      using d el by (simp_all add: s1_def s0_def)
    have rd: "ref d < fresh s0" using page_inv_fresh [OF inv d(2)] by (simp add: s0_def)
    show ?thesis
    proof (cases gd)
      case None
      have "step_trace f ev s = [s1, s1\<lparr>mapRef := None\<rparr>] @
         [setTarget_undefined i (s1\<lparr>mapRef := None\<rparr>),
          (setTarget_undefined i (s1\<lparr>mapRef := None\<rparr>))\<lparr>mapInstance := None\<rparr>,
          (setTarget_undefined i (s1\<lparr>mapRef := None\<rparr>))\<lparr>mapInstance := None, cleanup := False\<rparr>,
          (setTarget_undefined i (s1\<lparr>mapRef := None\<rparr>))\<lparr>mapInstance := None, cleanup := False,
             deps := None\<rparr>]"
        using tr render_active_none [OF act1 d1, of f] g1 None by simp
      then show ?thesis
        by (intro exI conjI, assumption) (simp_all add: setTarget_undefined_def mp)
    next
      case (Some g)
      have dg: "d \<noteq> g" using r rd Some by auto
      have "step_trace f ev s = [s1, s1] @
         [setTarget_undefined i s1,
          (setTarget_undefined i s1)\<lparr>mapInstance := None\<rparr>,
          (setTarget_undefined i s1)\<lparr>mapInstance := None, cleanup := False\<rparr>,
          (setTarget_undefined i s1)\<lparr>mapInstance := None, cleanup := False,
             maps := maps (setTarget_undefined i s1) @ [new_Map f g el],
             mapInstance := Some (length (maps s1)), cleanup := True, deps := Some g\<rparr>]"
        using tr render_active_some [OF act1 d1 _ dg el1, of f] g1 Some by simp
      then show ?thesis
        by (intro exI conjI, assumption) (simp_all add: setTarget_undefined_def mp)
    qed
  qed
  then obtain pre u v w z where tr: "step_trace f ev s = pre @ [u, v, w, z]"
      and pre: "\<forall>t \<in> set pre. maps t = maps s"
      and u: "maps u = (maps s)[i := (maps s ! i)\<lparr>target := None\<rparr>]"
      and v: "maps v = maps u" "mapInstance v = None" and w: "maps w = maps u"
      and z: "maps z = maps u \<and> mapInstance z = None
           \<or> (\<exists>m. maps z = maps u @ [m] \<and> mapInstance z = Some (length (maps s)))"
    by blast
  have z': "maps z = maps u \<or> (\<exists>m. maps z = maps u @ [m])" using z by blast
  have e: "(\<exists>n<length (step_trace f ev s). torn_down i (step_trace f ev s ! n)
            \<and> (\<forall>m\<le>n. length (maps (step_trace f ev s ! m)) = length (maps s)))
       \<and> (\<forall>t \<in> set (step_trace f ev s). same_maps_content s t)
       \<and> target (maps (last (step_trace f ev s)) ! i) = None"
    using act tr pre u v w z' by (rule exit_trace)
  have l: "step f ev s = z" by (simp add: step_def tr)
  have "mapInstance z \<noteq> Some i" using z i by auto
  then show ?thesis using e l by (simp add: tr)
qed

theorem teardown_on_exit_witness:
  "mapInstance (run plain shown_then_reselected initial) = Some 0
   \<and> 0 < length (pending (run plain shown_then_reselected initial))
   \<and> target (maps (run plain shown_then_reselected initial) ! 0) = Some (Div 1)
   \<and> target (maps (step plain (Resolve 0) (run plain shown_then_reselected initial)) ! 0) = None
   \<and> mapInstance (step plain (Resolve 0) (run plain shown_then_reselected initial)) \<noteq> Some 0
   \<and> list_all (same_maps_content (run plain shown_then_reselected initial))
         (step_trace plain (Resolve 0) (run plain shown_then_reselected initial))"
proof -
  have h1: "mapInstance (run plain shown_then_reselected initial) = Some 0"
    by (simp add: page_defs example_defs)
  have h2: "0 < length (pending (run plain shown_then_reselected initial))"
    by (simp add: page_defs example_defs)
  have h3: "target (maps (run plain shown_then_reselected initial) ! 0) = Some (Div 1)"
    by (simp add: page_defs example_defs new_Map_def)
  have ev: "Resolve 0 = Unmount \<or>
     (\<exists>k. Resolve 0 = Resolve k \<and> k < length (pending (run plain shown_then_reselected initial)))"
    using h2 by simp
  show ?thesis
    using h1 h2 h3 teardown_on_exit [OF refl h1 ev] by (simp add: list_all_iff)
qed

section \<open>Entering the active state\<close>

text \<open>
  C6. When an event takes a reachable state without coordinate to a state with coordinate
  \<open>g\<close>, exactly one map has been constructed: it is bound to the element the ref holds,
  its view is centred on \<open>fromLonLat [longitude, latitude]\<close> at zoom 13, its layers are the
  OSM tile layer and a vector layer with the single marker feature at that same point, whose
  icon has anchor \<open>[0.5, 1]\<close> and source \<open>/marker-icon.png\<close>; and it is the one live map.
\<close>

theorem map_built_on_activation:
  assumes s: "s = run f evs initial"
    and off: "gpsData s = None"
    and on: "gpsData (step f ev s) = Some g"
  shows "\<exists>el. mapRef (step f ev s) = Some el
        \<and> mapInstance (step f ev s) = Some (length (maps s))
        \<and> maps (step f ev s) = maps s @
            [\<lparr>target = Some el,
              layers = [TileLayer OSM,
                        VectorLayer \<lparr>features =
                          [\<lparr>geometry = Point (f [longitude g, latitude g]),
                            style = Some \<lparr>style_image =
                              \<lparr>anchor = [1 / 2, 1], src = ''/marker-icon.png''\<rparr>\<rparr>\<rparr>]\<rparr>],
              view = \<lparr>center = f [longitude g, latitude g], zoom = 13\<rparr>\<rparr>]
        \<and> live_maps (step f ev s) = [last (maps (step f ev s))]"
proof -
  have ri: "reach_inv f s" unfolding s by (rule run_inv)
  have inv: "page_inv f s" using ri by (simp add: reach_inv_def)
  have changed: "gpsData (step f ev s) \<noteq> gpsData s" using off on by simp
  have m: "mounted s"
  proof (rule ccontr)
    assume nm: "\<not> mounted s"
    have "gpsData (step f ev s) = gpsData s"
    proof (cases ev)
      case (Select e)
      then show ?thesis using nm by (simp add: step_def step_trace_def)
    next
      case (Resolve k)
      then show ?thesis using nm by (simp add: step_def step_trace_def Let_def)
    next
      case Unmount
      then show ?thesis using nm by (simp add: step_def step_trace_def)
    qed
    then show False using changed by simp
  qed
  have d: "deps s = None" using ri m off by (simp add: reach_inv_def)
  obtain k where k: "ev = Resolve k" "k < length (pending s)"
  proof (cases ev)
    case (Select e)
    have "gpsData (step f ev s) = gpsData s"
    proof (cases e)
      case None
      then show ?thesis using Select by (simp add: step_def step_trace_def)
    next
      case (Some fl)
      then show ?thesis using Select step_select [OF ri m, of fl] by simp
    qed
    then show ?thesis using changed by simp
  next
    case (Resolve k)
    have "k < length (pending s)"
    proof (rule ccontr)
      assume "\<not> k < length (pending s)"
      then have "step f ev s = s" using Resolve by (simp add: step_resolve_skip)
      then show False using changed by simp
    qed
    then show ?thesis using Resolve that by blast
  next
    case Unmount
    then have "step f ev s = last (unmount_trace s)"
      using m by (simp add: step_def step_trace_def unmount_trace_def Let_def)
    then show ?thesis using unmount_gps [OF inv m] changed by simp
  qed
  define s0 where "s0 = s\<lparr>pending := take k (pending s) @ drop (Suc k) (pending s)\<rparr>"
  obtain cs md gd where ex: "extraction (pending s ! k) s0 = Inr (s0\<lparr>calls := calls s0 @ cs, metadata := md, gpsData := gd,
      fresh := (if gd = None then fresh s0 else Suc (fresh s0))\<rparr>)"
    using extraction_cases [of "pending s ! k" s0] by blast
  define s1 where "s1 = s0\<lparr>calls := calls s0 @ cs, metadata := md, gpsData := gd,
      fresh := (if gd = None then fresh s0 else Suc (fresh s0))\<rparr>"
  have tr: "step_trace f ev s = s1 # render_trace f s1"
    using k m ex by (simp add: step_trace_def s0_def s1_def Let_def)
  have ina: "inactive s" and mr: "mapRef s = None" using inv m d by (simp_all add: page_inv_def)
  have ina1: "inactive s1"
    using ina by (subst inactive_cong [where s = s]) (simp_all add: s1_def s0_def)
  have mr1: "mapRef s1 = None" and d1: "deps s1 = None" and mp: "maps s1 = maps s"
    using mr d by (simp_all add: s1_def s0_def)
  have g1: "gpsData s1 = Some g"
  proof (cases "gpsData s1")
    case None
    have inv0: "page_inv f s0"
      using inv by (rule page_inv_frame) (use page_inv_fresh [OF inv] in \<open>simp_all add: s0_def\<close>)
    have inv1: "page_inv f s1" using extraction_inv [OF inv0 ex] by (simp add: s1_def)
    have "mounted s1" using m by (simp add: s1_def s0_def)
    then have "render_trace f s1 = [s1]" using inv1 d1 None by (intro render_unchanged) simp_all
    then have "step f ev s = s1" using tr by (simp add: step_def)
    then show ?thesis using on None by simp
  next
    case (Some g')
    have "render_trace f s1 =
       [s1\<lparr>mapRef := Some (Div (fresh s1)), fresh := Suc (fresh s1)\<rparr>,
        s1\<lparr>mapRef := Some (Div (fresh s1)), fresh := Suc (fresh s1),
          maps := maps s1 @ [new_Map f g' (Div (fresh s1))],
          mapInstance := Some (length (maps s1)), cleanup := True, deps := Some g'\<rparr>]"
      using ina1 mr1 d1 Some by (rule render_inactive_some)
    then have "gpsData (step f ev s) = Some g'" using tr Some by (simp add: step_def)
    then show ?thesis using on Some by simp
  qed
  have rt: "render_trace f s1 =
       [s1\<lparr>mapRef := Some (Div (fresh s1)), fresh := Suc (fresh s1)\<rparr>,
        s1\<lparr>mapRef := Some (Div (fresh s1)), fresh := Suc (fresh s1),
          maps := maps s1 @ [new_Map f g (Div (fresh s1))],
          mapInstance := Some (length (maps s1)), cleanup := True, deps := Some g\<rparr>]"
    using ina1 mr1 d1 g1 by (rule render_inactive_some)
  have st: "step f ev s = s1\<lparr>mapRef := Some (Div (fresh s1)), fresh := Suc (fresh s1),
          maps := maps s1 @ [new_Map f g (Div (fresh s1))],
          mapInstance := Some (length (maps s1)), cleanup := True, deps := Some g\<rparr>"
    using tr rt by (simp add: step_def)
  have ri': "reach_inv f (step f ev s)" using step_inv [OF ri, of ev] by simp
  have ms: "mounted (step f ev s)" using m by (simp add: st s1_def s0_def)
  have mrs: "mapRef (step f ev s) = Some (Div (fresh s1))" by (simp add: st)
  have lm: "live_maps (step f ev s) = [new_Map f g (Div (fresh s1))]"
    using reach_live [OF ri'] on ms mrs by simp
  show ?thesis
    by (intro exI [of _ "Div (fresh s1)"]) (simp add: lm, simp add: st mp new_Map_def)
qed

theorem map_built_on_activation_witness:
  "gpsData (run plain [Select (Some photo_sf)] initial) = None
   \<and> gpsData (step plain (Resolve 0) (run plain [Select (Some photo_sf)] initial))
       = Some \<lparr>ref = 0, latitude = Num 37.7749, longitude = Num (-122.4194)\<rparr>
   \<and> maps (step plain (Resolve 0) (run plain [Select (Some photo_sf)] initial)) =
       [\<lparr>target = Some (Div 1),
         layers = [TileLayer OSM,
                   VectorLayer \<lparr>features =
                     [\<lparr>geometry = Point [Num (-122.4194), Num 37.7749],
                       style = Some \<lparr>style_image =
                         \<lparr>anchor = [1 / 2, 1], src = ''/marker-icon.png''\<rparr>\<rparr>\<rparr>]\<rparr>],
         view = \<lparr>center = [Num (-122.4194), Num 37.7749], zoom = 13\<rparr>\<rparr>]"
proof -
  have h1: "gpsData (run plain [Select (Some photo_sf)] initial) = None"
    by (simp add: page_defs example_defs)
  have h2: "gpsData (step plain (Resolve 0) (run plain [Select (Some photo_sf)] initial))
       = Some \<lparr>ref = 0, latitude = Num 37.7749, longitude = Num (-122.4194)\<rparr>"
    by (simp add: page_defs example_defs)
  have h3: "maps (run plain [Select (Some photo_sf)] initial) = []"
    by (simp add: page_defs example_defs)
  have h4: "mapRef (step plain (Resolve 0) (run plain [Select (Some photo_sf)] initial))
       = Some (Div 1)"
    by (simp add: page_defs example_defs)
  show ?thesis
    using h1 h2 h3 h4 map_built_on_activation [OF refl h1 h2] by (simp add: plain_def)
qed

end
